theory Spec2Isabelle
  imports Complex_Main "HOL-Library.Sublist"
begin

section \<open>Foxhound transforms: shared data model\<close>

text \<open>
  The module \<^verbatim>\<open>foxhound/transforms.py\<close> is Python 2 code on top of numpy: \<^verbatim>\<open>map\<close>
  returns a list (the result of \<^verbatim>\<open>map(len, seqs)\<close> is traversed twice by \<^verbatim>\<open>SeqPadded\<close>),
  \<^verbatim>\<open>round\<close> rounds halves away from zero, and strings are byte strings. The model follows
  these semantics. Exceptions are values of the type \<open>error\<close>; a function that can raise
  returns \<open>error + 'a\<close> with \<open>Inl\<close> for the exception.
\<close>

datatype error = ValueError | NameError | IndexError

text \<open>
  A two-dimensional numpy array: its shape is kept beside the rows, because an array of
  shape \<open>(0, n)\<close> has no row from which \<open>n\<close> could be read back.
\<close>

record 'a ndarray =
  nrows :: nat
  ncols :: nat
  rows :: "'a list list"

definition column :: "'a ndarray \<Rightarrow> nat \<Rightarrow> 'a list" where
  "column A j = map (\<lambda>r. r ! j) (rows A)"

text \<open>
  \<^verbatim>\<open>np.asarray\<close> on a list of lists gives a two-dimensional array when the list is not empty
  and all inner lists have one length. Otherwise the array is one-dimensional (\<open>None\<close> here),
  and \<^verbatim>\<open>transpose(1, 0)\<close> of a one-dimensional array raises \<^verbatim>\<open>ValueError\<close>.
\<close>

definition asarray :: "'a list list \<Rightarrow> 'a ndarray option" where
  "asarray xss =
     (case xss of
        [] \<Rightarrow> None
      | xs # _ \<Rightarrow>
          if list_all (\<lambda>ys. length ys = length xs) xss
          then Some \<lparr>nrows = length xss, ncols = length xs, rows = xss\<rparr>
          else None)"

definition transpose_1_0 :: "'a ndarray \<Rightarrow> 'a ndarray" where
  "transpose_1_0 A =
     \<lparr>nrows = ncols A, ncols = nrows A,
      rows = map (\<lambda>i. map (\<lambda>r. r ! i) (rows A)) [0..<ncols A]\<rparr>"

text \<open>The builtin \<^verbatim>\<open>max\<close> of a list: \<^verbatim>\<open>ValueError\<close> on the empty list.\<close>

definition py_max :: "'a::linorder list \<Rightarrow> error + 'a" where
  "py_max xs = (case xs of [] \<Rightarrow> Inl ValueError | x # ys \<Rightarrow> Inr (fold max ys x))"

section \<open>SeqPadded\<close>

text \<open>
  The loop of \<^verbatim>\<open>SeqPadded\<close> over \<^verbatim>\<open>zip(seqs, lens)\<close>, with the list \<^verbatim>\<open>seqs_padded\<close> it
  appends to. \<^verbatim>\<open>[0] * n_pad\<close> is the empty list when \<^verbatim>\<open>n_pad\<close> is not positive, which the
  truncating subtraction of \<open>nat\<close> gives as well.
\<close>

fun pad_loop :: "string \<Rightarrow> nat \<Rightarrow> (int list \<times> nat) list \<Rightarrow> int list list \<Rightarrow> int list list" where
  "pad_loop placement max_len [] seqs_padded = seqs_padded"
| "pad_loop placement max_len ((seq, seq_len) # rest) seqs_padded =
     (let n_pad = max_len - seq_len;
          seq' = (if placement = ''front'' then replicate n_pad 0 @ seq
                  else seq @ replicate n_pad 0)
      in pad_loop placement max_len rest (seqs_padded @ [seq']))"

definition SeqPadded :: "int list list \<Rightarrow> string \<Rightarrow> error + int ndarray" where
  "SeqPadded seqs placement =
     (let lens = map length seqs in
      case py_max lens of
        Inl e \<Rightarrow> Inl e
      | Inr max_len \<Rightarrow>
          (let seqs_padded = pad_loop placement max_len (zip seqs lens) [] in
           case asarray seqs_padded of
             None \<Rightarrow> Inl ValueError
           | Some A \<Rightarrow> Inr (transpose_1_0 A)))"

text \<open>
  The padded form of one sequence, as one pass through the loop body computes it.
\<close>

definition pad_seq :: "string \<Rightarrow> nat \<Rightarrow> int list \<Rightarrow> int list" where
  "pad_seq placement max_len seq =
     (if placement = ''front'' then replicate (max_len - length seq) 0 @ seq
      else seq @ replicate (max_len - length seq) 0)"

text \<open>
  Two readings of ``the non-sentinel run of a column'', both following the words of the
  specification and not the code: the first maximal block of entries different from the
  sentinel \<open>0\<close>, and all entries different from the sentinel.
\<close>

definition non_sentinel_run :: "int list \<Rightarrow> int list" where
  "non_sentinel_run col = takeWhile (\<lambda>t. t \<noteq> 0) (dropWhile (\<lambda>t. t = 0) col)"

definition non_sentinel_entries :: "int list \<Rightarrow> int list" where
  "non_sentinel_entries col = filter (\<lambda>t. t \<noteq> 0) col"

subsection \<open>SeqPadded over a store of list objects\<close>

text \<open>
  To state that \<^verbatim>\<open>SeqPadded\<close> has no side effect, the same code is modelled a second time
  with the mutable state it could touch: the Python list objects that hold tokens, addressed
  by their position in the store, and the state of the shared generator \<^verbatim>\<open>py_rng\<close>.
  List concatenation and \<^verbatim>\<open>[0] * n_pad\<close> allocate new list objects; \<^verbatim>\<open>seqs_padded\<close> holds
  references to them. The generator is modelled by the sequence of its future raw draws.
\<close>

type_synonym addr = nat

type_synonym rng = "nat \<Rightarrow> nat"

record world =
  heap :: "int list list"
  py_rng :: rng

definition alloc :: "int list \<Rightarrow> world \<Rightarrow> addr \<times> world" where
  "alloc xs w = (length (heap w), w\<lparr>heap := heap w @ [xs]\<rparr>)"

fun pad_loop_w :: "string \<Rightarrow> nat \<Rightarrow> (addr \<times> nat) list \<Rightarrow> addr list \<Rightarrow> world \<Rightarrow> addr list \<times> world" where
  "pad_loop_w placement max_len [] seqs_padded w = (seqs_padded, w)"
| "pad_loop_w placement max_len ((seq, seq_len) # rest) seqs_padded w =
     (let n_pad = max_len - seq_len;
          (zeros, w1) = alloc (replicate n_pad 0) w;
          (seq', w2) = (if placement = ''front''
                        then alloc (heap w1 ! zeros @ heap w1 ! seq) w1
                        else alloc (heap w1 ! seq @ heap w1 ! zeros) w1)
      in pad_loop_w placement max_len rest (seqs_padded @ [seq']) w2)"

definition SeqPadded_w :: "addr list \<Rightarrow> string \<Rightarrow> world \<Rightarrow> (error + int ndarray) \<times> world" where
  "SeqPadded_w seqs placement w =
     (let lens = map (\<lambda>a. length (heap w ! a)) seqs in
      case py_max lens of
        Inl e \<Rightarrow> (Inl e, w)
      | Inr max_len \<Rightarrow>
          (let (seqs_padded, w') = pad_loop_w placement max_len (zip seqs lens) [] w in
           case asarray (map (\<lambda>a. heap w' ! a) seqs_padded) of
             None \<Rightarrow> (Inl ValueError, w')
           | Some A \<Rightarrow> (Inr (transpose_1_0 A), w')))"

section \<open>LenClip\<close>

text \<open>\<^verbatim>\<open>x.split(' ')\<close>: the pieces between single spaces; never the empty list.\<close>

fun split_space :: "string \<Rightarrow> string list" where
  "split_space [] = [[]]"
| "split_space (c # cs) =
     (if c = CHR '' '' then [] # split_space cs
      else (case split_space cs of [] \<Rightarrow> [[c]] | w # ws \<Rightarrow> (c # w) # ws))"

text \<open>\<^verbatim>\<open>' '.join(words)\<close>.\<close>

fun join_space :: "string list \<Rightarrow> string" where
  "join_space [] = []"
| "join_space [w] = w"
| "join_space (w # ws) = w @ CHR '' '' # join_space ws"

text \<open>\<^verbatim>\<open>np.cumsum\<close> of a list of integers.\<close>

fun cumsum_from :: "int \<Rightarrow> int list \<Rightarrow> int list" where
  "cumsum_from acc [] = []"
| "cumsum_from acc (x # xs) = (acc + x) # cumsum_from (acc + x) xs"

definition cumsum :: "int list \<Rightarrow> int list" where
  "cumsum xs = cumsum_from 0 xs"

text \<open>
  The body of the loop of \<^verbatim>\<open>LenClip\<close> for one string. \<^verbatim>\<open>lens[0]\<close> and \<^verbatim>\<open>lens[-1]\<close> exist
  because \<^verbatim>\<open>split\<close> returns at least one word; for a single word both name the same entry,
  which is decremented twice.
\<close>

definition clip_lens :: "string list \<Rightarrow> int list" where
  "clip_lens words =
     (let lens = map (\<lambda>word. int (length word) + 1) words;
          lens = lens[0 := lens ! 0 - 1];
          lens = lens[length lens - 1 := lens ! (length lens - 1) - 1]
      in cumsum lens)"

definition clip_one :: "int \<Rightarrow> string \<Rightarrow> string" where
  "clip_one n x =
     (let words = split_space x;
          lens = clip_lens words;
          words = map fst (filter (\<lambda>(w, l). l < n) (zip words lens))
      in join_space words)"

definition LenClip :: "string list \<Rightarrow> int \<Rightarrow> string list" where
  "LenClip X n = map (clip_one n) X"

section \<open>OneHot\<close>

text \<open>
  \<^verbatim>\<open>X\<close> is the flattened integer array, \<^verbatim>\<open>n\<close> is \<open>None\<close> when the class count is left out.
  \<^verbatim>\<open>np.max\<close> of an empty array and \<^verbatim>\<open>np.ones\<close> with a negative dimension raise
  \<^verbatim>\<open>ValueError\<close>; the indexed assignment raises \<^verbatim>\<open>IndexError\<close> for a column index outside
  \<open>[-n, n)\<close> and counts a negative index from the end. The entries are floats; the only
  arithmetic on them is the product \<^verbatim>\<open>1.0 * negative_class\<close>, which is exact, so \<open>real\<close>
  represents them without loss.
\<close>

definition OneHot :: "int list \<Rightarrow> int option \<Rightarrow> real \<Rightarrow> error + real ndarray" where
  "OneHot X n negative_class =
     (case (case n of
              None \<Rightarrow> (case py_max X of Inl e \<Rightarrow> Inl e | Inr m \<Rightarrow> Inr (m + 1))
            | Some k \<Rightarrow> Inr k) of
        Inl e \<Rightarrow> Inl e
      | Inr n \<Rightarrow>
          if n < 0 then Inl ValueError
          else if list_ex (\<lambda>v. v < - n \<or> n \<le> v) X then Inl IndexError
          else Inr \<lparr>nrows = length X, ncols = nat n,
                    rows = map (\<lambda>v. (replicate (nat n) (1 * negative_class))
                                        [nat (if v < 0 then v + n else v) := 1]) X\<rparr>)"

section \<open>Standardize\<close>

text \<open>
  Elementwise on the buffer of the array, whatever its shape. The arithmetic is that of the
  reals: rounding of the floating-point division and subtraction is not part of the model.
\<close>

definition Standardize :: "real list \<Rightarrow> real list" where
  "Standardize X = map (\<lambda>x. x / 127.5 - 1) X"

text \<open>
  The inverse scaling \<open>(y + 1) * 127.5\<close> is not in the code; it follows the words of the
  specification, which names it to say that \<open>Standardize\<close> loses nothing.
\<close>

definition inverse_scaling :: "real list \<Rightarrow> real list" where
  "inverse_scaling Y = map (\<lambda>y. (y + 1) * 127.5) Y"

section \<open>Patch and CenterCrop\<close>

text \<open>
  An image is an array whose first two axes have the lengths \<^verbatim>\<open>w, h = x.shape[:2]\<close>; an
  entry is whatever lies below these two axes (a number, or the vector of channels).
  A slice \<^verbatim>\<open>a:b\<close> of an axis of length \<open>len\<close> follows Python: a negative bound counts from the
  end, both bounds are clipped to \<open>[0, len]\<close>, and nothing is raised.
\<close>

definition slice_bounds :: "nat \<Rightarrow> int \<Rightarrow> int \<Rightarrow> nat \<times> nat" where
  "slice_bounds len a b =
     (let n = int len;
          lo = (if a < 0 then max (a + n) 0 else min a n);
          hi = (if b < 0 then max (b + n) 0 else min b n)
      in (nat lo, nat hi))"

definition slice2 :: "'a ndarray \<Rightarrow> int \<Rightarrow> int \<Rightarrow> int \<Rightarrow> int \<Rightarrow> 'a ndarray" where
  "slice2 x a b c d =
     (let (rlo, rhi) = slice_bounds (nrows x) a b;
          (clo, chi) = slice_bounds (ncols x) c d
      in \<lparr>nrows = rhi - rlo, ncols = chi - clo,
          rows = map (\<lambda>r. take (chi - clo) (drop clo r)) (take (rhi - rlo) (drop rlo (rows x)))\<rparr>)"

text \<open>
  Modelled from the spec: the random-number source (the module \<^verbatim>\<open>rng\<close> that binds \<^verbatim>\<open>py_rng\<close>
  is not part of the sources at hand), which ``provides uniform integers in a range''.
  \<^verbatim>\<open>py_rng.randint(a, b)\<close> is taken to be \<^verbatim>\<open>random.Random.randint\<close>: it returns some \<open>N\<close> with
  \<open>a \<le> N \<le> b\<close>, advances the generator, and raises \<^verbatim>\<open>ValueError\<close> when the range is empty.
\<close>

definition randint :: "int \<Rightarrow> int \<Rightarrow> rng \<Rightarrow> error + (int \<times> rng)" where
  "randint a b g =
     (if b < a then Inl ValueError
      else Inr (a + int (g 0 mod nat (b - a + 1)), \<lambda>k. g (Suc k)))"

fun Patch_loop :: "'a ndarray list \<Rightarrow> int \<Rightarrow> int \<Rightarrow> rng \<Rightarrow> 'a ndarray list \<Rightarrow> error + ('a ndarray list \<times> rng)" where
  "Patch_loop [] pw ph g Xt = Inr (Xt, g)"
| "Patch_loop (x # X) pw ph g Xt =
     (let w = int (nrows x); h = int (ncols x) in
      case randint 0 (w - pw) g of
        Inl e \<Rightarrow> Inl e
      | Inr (i, g1) \<Rightarrow>
          (case randint 0 (h - ph) g1 of
             Inl e \<Rightarrow> Inl e
           | Inr (j, g2) \<Rightarrow> Patch_loop X pw ph g2 (Xt @ [slice2 x i (i + pw) j (j + pw)])))"

definition Patch :: "'a ndarray list \<Rightarrow> int \<Rightarrow> int \<Rightarrow> rng \<Rightarrow> error + ('a ndarray list \<times> rng)" where
  "Patch X pw ph g = Patch_loop X pw ph g []"

text \<open>
  \<^verbatim>\<open>int(round(d / 2.))\<close> for an integer \<open>d\<close>: the quotient is exact in binary floating point
  (for \<open>|d| < 2^53\<close>), and Python 2 rounds a half away from zero.
\<close>

definition round_half :: "int \<Rightarrow> int" where
  "round_half d = (if 0 \<le> d then (d + 1) div 2 else - ((1 - d) div 2))"

definition center_crop :: "int \<Rightarrow> int \<Rightarrow> 'a ndarray \<Rightarrow> 'a ndarray" where
  "center_crop pw ph x =
     (let w = int (nrows x); h = int (ncols x);
          i = round_half (w - pw);
          j = round_half (h - ph)
      in slice2 x i (i + pw) j (j + pw))"

definition CenterCrop :: "'a ndarray list \<Rightarrow> int \<Rightarrow> int \<Rightarrow> 'a ndarray list" where
  "CenterCrop X pw ph = map (center_crop pw ph) X"

text \<open>
  A crop of \<open>x\<close> taken at offsets that the two random draws of \<open>Patch\<close> can return
  (used only to state what a successful call returns).
\<close>

definition patch_of :: "int \<Rightarrow> int \<Rightarrow> 'a ndarray \<Rightarrow> 'a ndarray \<Rightarrow> bool" where
  "patch_of pw ph x y \<longleftrightarrow>
     (\<exists>i j. 0 \<le> i \<and> i \<le> int (nrows x) - pw \<and> 0 \<le> j \<and> j \<le> int (ncols x) - ph
        \<and> y = slice2 x i (i + pw) j (j + pw))"

section \<open>StringToCharacterCNNRNNRep\<close>

text \<open>
  The four-dimensional result, with its shape beside the nested lists.
\<close>

record 'a ndarray4 =
  shape4 :: "nat \<times> nat \<times> nat \<times> nat"
  data4 :: "'a list list list list"

text \<open>
  The function calls \<^verbatim>\<open>one_hot(x, n=nc)\<close>. Python looks a global name up when the call is
  executed, in the bindings of the module; a name bound nowhere raises \<^verbatim>\<open>NameError\<close>.
  \<open>env\<close> is the part of these bindings that matters to the call: the callables that accept
  a list of integers and a class count.

  The module \<^verbatim>\<open>transforms.py\<close> binds, by its imports, \<^verbatim>\<open>np\<close>, \<^verbatim>\<open>pd\<close>, \<^verbatim>\<open>Counter\<close>, \<^verbatim>\<open>numpy_array\<close>,
  \<^verbatim>\<open>np_rng\<close>, \<^verbatim>\<open>py_rng\<close>, and by its definitions \<^verbatim>\<open>LenClip\<close>, \<^verbatim>\<open>OneHot\<close>, \<^verbatim>\<open>SeqPadded\<close>, \<^verbatim>\<open>FlatToImg\<close>,
  \<^verbatim>\<open>ImgToConv\<close>, \<^verbatim>\<open>Standardize\<close>, \<^verbatim>\<open>ZeroOneScale\<close>, \<^verbatim>\<open>Fliplr\<close>, \<^verbatim>\<open>Reflect\<close>, \<^verbatim>\<open>FlipVertical\<close>,
  \<^verbatim>\<open>FlipHorizontal\<close>, \<^verbatim>\<open>Rot90\<close>, \<^verbatim>\<open>ColorShift\<close>, \<^verbatim>\<open>Patch\<close>, \<^verbatim>\<open>SeqDelete\<close>, \<^verbatim>\<open>SeqPatch\<close>, \<^verbatim>\<open>CenterCrop\<close>,
  \<^verbatim>\<open>StringToCharacterCNNRep\<close> and \<^verbatim>\<open>StringToCharacterCNNRNNRep\<close>. The one-hot encoder is bound
  to the name \<^verbatim>\<open>OneHot\<close>; nothing is bound to \<^verbatim>\<open>one_hot\<close>.
\<close>

type_synonym one_hot_fn = "int list \<Rightarrow> int \<Rightarrow> error + real ndarray"

definition transforms_env :: "string \<Rightarrow> one_hot_fn option" where
  "transforms_env = map_of [(''OneHot'', \<lambda>x n. OneHot x (Some n) 0)]"

text \<open>
  The dictionary \<^verbatim>\<open>encoder\<close> is an association list (the first pair of a key counts);
  \<^verbatim>\<open>len(encoder)\<close> is the number of its keys and \<^verbatim>\<open>encoder.get(c, 0)\<close> defaults to \<open>0\<close>.
\<close>

definition encoder_len :: "(char \<times> int) list \<Rightarrow> int" where
  "encoder_len encoder = int (length (remdups (map fst encoder)))"

definition encoder_get :: "(char \<times> int) list \<Rightarrow> char \<Rightarrow> int" where
  "encoder_get encoder c = (case map_of encoder c of None \<Rightarrow> 0 | Some v \<Rightarrow> v)"

fun rnn_rep_loop :: "(string \<Rightarrow> one_hot_fn option) \<Rightarrow> (char \<times> int) list \<Rightarrow> int \<Rightarrow> nat \<Rightarrow> string list \<Rightarrow> real ndarray list \<Rightarrow> error + real ndarray list" where
  "rnn_rep_loop env encoder nc max_len [] Xt = Inr Xt"
| "rnn_rep_loop env encoder nc max_len (x # X) Xt =
     (let ids = map (encoder_get encoder) x in
      case env ''one_hot'' of
        None \<Rightarrow> Inl NameError
      | Some one_hot \<Rightarrow>
          (case one_hot ids nc of
             Inl e \<Rightarrow> Inl e
           | Inr oh \<Rightarrow>
               (let l = nrows oh;
                    x' = (if l \<noteq> max_len
                          then \<lparr>nrows = (max_len - l) + nrows oh, ncols = ncols oh,
                                 rows = replicate (max_len - l) (replicate (nat nc) 0) @ rows oh\<rparr>
                          else oh)
                in rnn_rep_loop env encoder nc max_len X (Xt @ [x']))))"

definition StringToCharacterCNNRNNRep_env :: "(string \<Rightarrow> one_hot_fn option) \<Rightarrow> string list \<Rightarrow> (char \<times> int) list \<Rightarrow> error + real ndarray4" where
  "StringToCharacterCNNRNNRep_env env X encoder =
     (let nc = encoder_len encoder + 1 in
      case py_max (map length X) of
        Inl e \<Rightarrow> Inl e
      | Inr max_len \<Rightarrow>
          (case rnn_rep_loop env encoder nc max_len X [] of
             Inl e \<Rightarrow> Inl e
           | Inr Xt \<Rightarrow>
               if list_all (\<lambda>A. nrows A = max_len \<and> ncols A = nat nc) Xt
               then Inr \<lparr>shape4 = (length Xt, 1, max_len, nat nc),
                         data4 = map (\<lambda>A. [rows A]) Xt\<rparr>
               else Inl ValueError))"

definition StringToCharacterCNNRNNRep :: "string list \<Rightarrow> (char \<times> int) list \<Rightarrow> error + real ndarray4" where
  "StringToCharacterCNNRNNRep X encoder = StringToCharacterCNNRNNRep_env transforms_env X encoder"

section \<open>Properties of SeqPadded\<close>

lemma pad_loop_zip:
  "pad_loop placement max_len (zip seqs (map length seqs)) acc
     = acc @ map (pad_seq placement max_len) seqs"
  by (induction seqs arbitrary: acc) (simp_all add: pad_seq_def)

lemma py_max_Max: assumes "xs \<noteq> []" shows "py_max xs = Inr (Max (set xs))"
proof (cases xs)
  case Nil
  then show ?thesis using \<open>xs \<noteq> []\<close> by simp
next
  case (Cons x ys)
  have "fold max ys x = Max (set (x # ys))" by (simp only: Max.set_eq_fold)
  with Cons show ?thesis by (simp add: py_max_def)
qed

lemma length_pad_seq: "length seq \<le> max_len \<Longrightarrow> length (pad_seq placement max_len seq) = max_len"
  by (simp add: pad_seq_def)

lemma asarray_rect:
  "xss \<noteq> [] \<Longrightarrow> \<forall>xs \<in> set xss. length xs = n \<Longrightarrow>
   asarray xss = Some \<lparr>nrows = length xss, ncols = n, rows = xss\<rparr>"
  by (cases xss) (auto simp: asarray_def list_all_iff)

lemma SeqPadded_eq:
  assumes "seqs \<noteq> []"
  shows "SeqPadded seqs placement =
    Inr (transpose_1_0 \<lparr>nrows = length seqs, ncols = Max (set (map length seqs)),
           rows = map (pad_seq placement (Max (set (map length seqs)))) seqs\<rparr>)"
proof -
  define m where "m = Max (set (map length seqs))"
  have mx: "py_max (map length seqs) = Inr m"
    unfolding m_def using assms by (intro py_max_Max) simp
  have le: "length s \<le> m" if "s \<in> set seqs" for s
    using that unfolding m_def by simp
  have "\<forall>xs \<in> set (map (pad_seq placement m) seqs). length xs = m"
    using le by (auto simp: length_pad_seq)
  moreover have "map (pad_seq placement m) seqs \<noteq> []" using assms by simp
  ultimately have "asarray (map (pad_seq placement m) seqs)
      = Some \<lparr>nrows = length (map (pad_seq placement m) seqs), ncols = m,
               rows = map (pad_seq placement m) seqs\<rparr>"
    by (rule asarray_rect[rotated])
  then have as: "asarray (map (pad_seq placement m) seqs)
      = Some \<lparr>nrows = length seqs, ncols = m, rows = map (pad_seq placement m) seqs\<rparr>"
    by (simp only: length_map)
  have "SeqPadded seqs placement =
    Inr (transpose_1_0 \<lparr>nrows = length seqs, ncols = m, rows = map (pad_seq placement m) seqs\<rparr>)"
    unfolding SeqPadded_def Let_def
    by (simp only: mx sum.case pad_loop_zip append_Nil as option.case)
  then show ?thesis unfolding m_def .
qed

lemma column_transpose:
  "j < length (rows A) \<Longrightarrow> length (rows A ! j) = ncols A \<Longrightarrow>
   column (transpose_1_0 A) j = rows A ! j"
  by (auto simp: column_def transpose_1_0_def intro!: nth_equalityI)

lemma takeWhile_nonzero: "0 \<notin> set seq \<Longrightarrow> takeWhile (\<lambda>t. t \<noteq> (0::int)) (seq @ replicate n 0) = seq"
proof (induction seq)
  case Nil
  then show ?case by (cases n) auto
next
  case (Cons a seq)
  then show ?case by auto
qed

lemma dropWhile_zero_replicate:
  "dropWhile (\<lambda>t. t = (0::int)) (replicate n 0 @ seq) = dropWhile (\<lambda>t. t = 0) seq"
  by (induction n) auto

lemma dropWhile_zero_id: "0 \<notin> set seq \<Longrightarrow> dropWhile (\<lambda>t. t = (0::int)) seq = seq"
  by (cases seq) auto

lemma non_sentinel_run_front:
  "0 \<notin> set seq \<Longrightarrow> non_sentinel_run (replicate n 0 @ seq) = seq"
  using takeWhile_nonzero[of seq 0]
  by (simp add: non_sentinel_run_def dropWhile_zero_replicate dropWhile_zero_id)

lemma non_sentinel_run_back:
  "0 \<notin> set seq \<Longrightarrow> non_sentinel_run (seq @ replicate n 0) = seq"
proof (cases seq)
  case Nil
  then show ?thesis
    using dropWhile_zero_replicate[of n "[]"] by (simp add: non_sentinel_run_def)
next
  case (Cons t ts)
  assume a: "0 \<notin> set seq"
  with Cons have "dropWhile (\<lambda>t. t = 0) (seq @ replicate n 0) = seq @ replicate n 0"
    by auto
  then show ?thesis using a by (simp add: non_sentinel_run_def takeWhile_nonzero)
qed

lemma transpose_shape:
  "nrows (transpose_1_0 A) = ncols A" "ncols (transpose_1_0 A) = nrows A"
  "length (rows (transpose_1_0 A)) = ncols A"
  by (simp_all add: transpose_1_0_def)

lemma transpose_row_length:
  "r \<in> set (rows (transpose_1_0 A)) \<Longrightarrow> length r = length (rows A)"
  by (auto simp: transpose_1_0_def)

lemma non_sentinel_entries_front:
  "0 \<notin> set seq \<Longrightarrow> non_sentinel_entries (replicate n 0 @ seq) = seq"
  by (auto simp: non_sentinel_entries_def filter_id_conv)

lemma non_sentinel_entries_back:
  "0 \<notin> set seq \<Longrightarrow> non_sentinel_entries (seq @ replicate n 0) = seq"
  by (auto simp: non_sentinel_entries_def filter_id_conv)

lemma SeqPadded_columns:
  assumes "seqs \<noteq> []"
  shows "\<exists>A. SeqPadded seqs placement = Inr A
    \<and> nrows A = Max (set (map length seqs)) \<and> ncols A = length seqs
    \<and> length (rows A) = nrows A \<and> (\<forall>r \<in> set (rows A). length r = ncols A)
    \<and> (\<forall>j < length seqs. column A j = pad_seq placement (nrows A) (seqs ! j))
    \<and> (\<forall>j < length seqs. length (seqs ! j) \<le> nrows A)"
proof -
  define m where "m = Max (set (map length seqs))"
  define B where "B = \<lparr>nrows = length seqs, ncols = m, rows = map (pad_seq placement m) seqs\<rparr>"
  have eq: "SeqPadded seqs placement = Inr (transpose_1_0 B)"
    unfolding B_def m_def by (rule SeqPadded_eq[OF assms])
  have B: "nrows B = length seqs" "ncols B = m" "rows B = map (pad_seq placement m) seqs"
    by (simp_all add: B_def)
  have le: "length (seqs ! j) \<le> m" if "j < length seqs" for j
    using that unfolding m_def by simp
  have col: "column (transpose_1_0 B) j = pad_seq placement m (seqs ! j)" if "j < length seqs" for j
    using that le[OF that] column_transpose[of j B] by (simp add: B length_pad_seq)
  have 1: "nrows (transpose_1_0 B) = Max (set (map length seqs))"
    by (simp only: transpose_shape B m_def)
  have 2: "ncols (transpose_1_0 B) = length seqs" by (simp only: transpose_shape B)
  have 3: "length (rows (transpose_1_0 B)) = nrows (transpose_1_0 B)"
    by (simp only: transpose_shape)
  have 4: "\<forall>r \<in> set (rows (transpose_1_0 B)). length r = ncols (transpose_1_0 B)"
    using transpose_row_length[of _ B] by (simp add: transpose_shape B)
  have 5: "\<forall>j < length seqs. column (transpose_1_0 B) j
            = pad_seq placement (nrows (transpose_1_0 B)) (seqs ! j)"
    by (simp add: col transpose_shape B)
  have 6: "\<forall>j < length seqs. length (seqs ! j) \<le> nrows (transpose_1_0 B)"
    by (simp add: le transpose_shape B)
  show ?thesis
    by (intro exI[of _ "transpose_1_0 B"] conjI) (fact eq 1 2 3 4 5 6)+
qed

text \<open>
  Claim C1. For every non-empty list of integer sequences and every placement (so for
  \<open>''front''\<close> and for \<open>''back''\<close>), \<open>SeqPadded\<close> returns a two-dimensional array with
  \<open>max (len s)\<close> rows and \<open>len seqs\<close> columns; the array is dense (it has \<open>nrows\<close> rows of
  \<open>ncols\<close> entries each, every column has \<open>nrows\<close> entries); a sequence of maximal length is
  its column, unchanged; and column \<open>j\<close> holds sequence \<open>j\<close>, in the order of the input list.
\<close>

theorem SeqPadded_shape:
  assumes "seqs \<noteq> []"
  shows "\<exists>A. SeqPadded seqs placement = Inr A
     \<and> nrows A = Max (set (map length seqs)) \<and> ncols A = length seqs
     \<and> length (rows A) = nrows A \<and> (\<forall>r \<in> set (rows A). length r = ncols A)
     \<and> (\<forall>j < length seqs. length (column A j) = nrows A)
     \<and> (\<forall>j < length seqs. length (seqs ! j) = nrows A \<longrightarrow> column A j = seqs ! j)
     \<and> (\<forall>j < length seqs. \<exists>pre suf. column A j = pre @ seqs ! j @ suf)"
proof -
  from SeqPadded_columns[OF assms, of placement]
  obtain A where A1: "SeqPadded seqs placement = Inr A"
    and A2: "nrows A = Max (set (map length seqs))" and A3: "ncols A = length seqs"
    and A4: "length (rows A) = nrows A" and A5: "\<forall>r \<in> set (rows A). length r = ncols A"
    and col: "\<forall>j < length seqs. column A j = pad_seq placement (nrows A) (seqs ! j)"
    and le: "\<forall>j < length seqs. length (seqs ! j) \<le> nrows A"
    by (elim exE conjE)
  have 3: "\<forall>j < length seqs. length (column A j) = nrows A"
    using A4 by (simp add: column_def)
  have 4: "\<forall>j < length seqs. length (seqs ! j) = nrows A \<longrightarrow> column A j = seqs ! j"
    using col by (simp add: pad_seq_def)
  have 5: "\<forall>j < length seqs. \<exists>pre suf. column A j = pre @ seqs ! j @ suf"
  proof (intro allI impI)
    fix j assume j: "j < length seqs"
    show "\<exists>pre suf. column A j = pre @ seqs ! j @ suf"
    proof (cases "placement = ''front''")
      case True
      then have "column A j = replicate (nrows A - length (seqs ! j)) 0 @ seqs ! j @ []"
        using col j by (simp add: pad_seq_def)
      then show ?thesis by (intro exI)
    next
      case False
      then have "column A j = [] @ seqs ! j @ replicate (nrows A - length (seqs ! j)) 0"
        using col j by (simp add: pad_seq_def)
      then show ?thesis by (intro exI)
    qed
  qed
  show ?thesis
    by (intro exI[of _ A] conjI) (fact A1 A2 A3 A4 A5 3 4 5)+
qed

theorem SeqPadded_shape_witness:
  "[[1], [1, 2, 3]] \<noteq> ([] :: int list list) \<and>
   (\<exists>A. SeqPadded [[1], [1, 2, 3]] ''front'' = Inr A
     \<and> nrows A = 3 \<and> ncols A = 2 \<and> column A 1 = [1, 2, 3])"
proof -
  have h: "[[1], [1, 2, 3]] \<noteq> ([] :: int list list)" by simp
  from SeqPadded_shape[OF h, of "''front''"]
  obtain A where 1: "SeqPadded [[1], [1, 2, 3]] ''front'' = Inr A"
    and 2: "nrows A = Max (set (map length [[1], [1, 2, 3 :: int]]))"
    and 3: "ncols A = length [[1], [1, 2, 3 :: int]]"
    and 4: "\<forall>j < length [[1], [1, 2, 3 :: int]].
        length ([[1], [1, 2, 3 :: int]] ! j) = nrows A \<longrightarrow> column A j = [[1], [1, 2, 3]] ! j"
    by (elim exE conjE)
  have r2: "nrows A = 3" using 2 by simp
  have r3: "ncols A = 2" using 3 by simp
  have "(1::nat) < length [[1], [1, 2, 3 :: int]]" by simp
  with 4 have "length ([[1], [1, 2, 3 :: int]] ! 1) = nrows A \<longrightarrow> column A 1 = [[1], [1, 2, 3]] ! 1"
    by simp
  then have r4: "column A 1 = [1, 2, 3]" using r2 by simp
  show ?thesis using h 1 r2 r3 r4 by (intro conjI exI[of _ A])
qed


text \<open>
  Claim C2 (as amended). For every non-empty list of integer sequences and every column \<open>j\<close>:
  with placement \<open>''front''\<close> the column is a block of padding zeros followed by the
  sequence, with any other placement (so with \<open>''back''\<close>) it is the sequence followed by a
  block of padding zeros; the tokens are contiguous and in their order, and no padding lies
  between two of them. When the sequence holds no token equal to the sentinel \<open>0\<close>, the
  non-sentinel run of the column, and equally its non-sentinel entries, are the sequence.
\<close>

theorem SeqPadded_padding_placement:
  assumes "seqs \<noteq> []" and "j < length seqs"
  shows "\<exists>A. SeqPadded seqs placement = Inr A
     \<and> (placement = ''front'' \<longrightarrow>
          column A j = replicate (nrows A - length (seqs ! j)) 0 @ seqs ! j)
     \<and> (placement \<noteq> ''front'' \<longrightarrow>
          column A j = seqs ! j @ replicate (nrows A - length (seqs ! j)) 0)
     \<and> (0 \<notin> set (seqs ! j) \<longrightarrow>
          non_sentinel_run (column A j) = seqs ! j
          \<and> non_sentinel_entries (column A j) = seqs ! j)"
proof -
  from SeqPadded_columns[OF assms(1), of placement]
  obtain A where A1: "SeqPadded seqs placement = Inr A"
    and col: "\<forall>j < length seqs. column A j = pad_seq placement (nrows A) (seqs ! j)"
    by (elim exE conjE)
  have c: "column A j = pad_seq placement (nrows A) (seqs ! j)"
    using col assms(2) by simp
  have f: "placement = ''front'' \<longrightarrow>
      column A j = replicate (nrows A - length (seqs ! j)) 0 @ seqs ! j"
    using c by (simp add: pad_seq_def)
  have b: "placement \<noteq> ''front'' \<longrightarrow>
      column A j = seqs ! j @ replicate (nrows A - length (seqs ! j)) 0"
    using c by (simp add: pad_seq_def)
  have r: "0 \<notin> set (seqs ! j) \<longrightarrow>
      non_sentinel_run (column A j) = seqs ! j \<and> non_sentinel_entries (column A j) = seqs ! j"
  proof (cases "placement = ''front''")
    case True
    with f have "column A j = replicate (nrows A - length (seqs ! j)) 0 @ seqs ! j" by simp
    then show ?thesis
      by (simp add: non_sentinel_run_front non_sentinel_entries_front)
  next
    case False
    with b have "column A j = seqs ! j @ replicate (nrows A - length (seqs ! j)) 0" by simp
    then show ?thesis
      by (simp add: non_sentinel_run_back non_sentinel_entries_back)
  qed
  show ?thesis
    by (intro exI[of _ A] conjI) (fact A1 f b r)+
qed

theorem SeqPadded_padding_placement_witness:
  "[[7], [1, 2, 3]] \<noteq> ([] :: int list list) \<and> (0::nat) < length [[7], [1, 2, 3 :: int]]
   \<and> (\<exists>A. SeqPadded [[7], [1, 2, 3]] ''back'' = Inr A
        \<and> column A 0 = [7] @ replicate (nrows A - 1) 0
        \<and> non_sentinel_run (column A 0) = [7])"
proof -
  have h1: "[[7], [1, 2, 3]] \<noteq> ([] :: int list list)" by simp
  have h2: "(0::nat) < length [[7], [1, 2, 3 :: int]]" by simp
  from SeqPadded_padding_placement[OF h1 h2, of "''back''"]
  obtain A where 1: "SeqPadded [[7], [1, 2, 3]] ''back'' = Inr A"
    and 2: "''back'' \<noteq> ''front'' \<longrightarrow> column A 0
        = [[7], [1, 2, 3]] ! 0 @ replicate (nrows A - length ([[7], [1, 2, 3 :: int]] ! 0)) 0"
    and 3: "0 \<notin> set ([[7], [1, 2, 3 :: int]] ! 0) \<longrightarrow>
        non_sentinel_run (column A 0) = [[7], [1, 2, 3]] ! 0
        \<and> non_sentinel_entries (column A 0) = [[7], [1, 2, 3]] ! 0"
    by (elim exE conjE)
  have r2: "column A 0 = [7] @ replicate (nrows A - 1) 0" using 2 by simp
  have r3: "non_sentinel_run (column A 0) = [7]" using 3 by simp
  show ?thesis using h1 h2 1 r2 r3 by (intro conjI exI[of _ A])
qed

text \<open>
  The claim C2 as it is stated covers every list of integer sequences, and so sequences that
  use the value \<open>0\<close> as a token. There it fails: the sequence \<open>[0, 5]\<close>, padded at the front
  to length three, is the column \<open>[0, 0, 5]\<close>, whose non-sentinel run is \<open>[5]\<close>.
\<close>

theorem SeqPadded_sentinel_token_counterexample:
  "SeqPadded [[0, 5], [1, 2, 3]] ''front''
     = Inr \<lparr>nrows = 3, ncols = 2, rows = [[0, 1], [0, 2], [5, 3]]\<rparr>
   \<and> column \<lparr>nrows = 3, ncols = 2, rows = [[0, 1], [0, 2], [5, 3 :: int]]\<rparr> 0 = [0, 0, 5]
   \<and> non_sentinel_run [0, 0, 5] = [5]
   \<and> non_sentinel_entries [0, 0, 5] = [5]
   \<and> [5] \<noteq> [[0, 5], [1, 2, 3 :: int]] ! 0"
  by (simp add: SeqPadded_def py_max_def asarray_def transpose_1_0_def upt_rec column_def
      non_sentinel_run_def non_sentinel_entries_def)

text \<open>
  Claim C3. Called with the empty list of sequences, \<open>SeqPadded\<close> fails, and the failure is
  the \<^verbatim>\<open>ValueError\<close> that \<^verbatim>\<open>max\<close> raises on an empty list: the invalid-input error of the
  interface, and no other kind.
\<close>

theorem SeqPadded_empty: "SeqPadded [] placement = Inl ValueError"
  by (simp add: SeqPadded_def py_max_def)

theorem SeqPadded_empty_witness:
  "SeqPadded [] ''front'' = Inl ValueError \<and> SeqPadded [] ''back'' = Inl ValueError"
  using SeqPadded_empty[of "''front''"] SeqPadded_empty[of "''back''"] by simp

section \<open>SeqPadded has no side effect\<close>

lemma alloc_simps:
  "fst (alloc xs w) = length (heap w)"
  "heap (snd (alloc xs w)) = heap w @ [xs]"
  "py_rng (snd (alloc xs w)) = py_rng w"
  by (simp_all add: alloc_def)

lemma pad_loop_w_step:
  assumes "seq < length (heap w)" and "seq_len = length (heap w ! seq)"
  shows "pad_loop_w placement max_len ((seq, seq_len) # rest) seqs_padded w =
     pad_loop_w placement max_len rest (seqs_padded @ [Suc (length (heap w))])
       (w\<lparr>heap := heap w @ [replicate (max_len - seq_len) 0, pad_seq placement max_len (heap w ! seq)]\<rparr>)"
  using assms by (simp add: alloc_def Let_def pad_seq_def nth_append)

lemma pad_loop_w_spec:
  assumes "\<forall>(a, l) \<in> set zs. a < length (heap w) \<and> l = length (heap w ! a)"
    and "\<forall>a \<in> set acc. a < length (heap w)"
  shows "\<exists>ext. heap (snd (pad_loop_w placement max_len zs acc w)) = heap w @ ext
     \<and> py_rng (snd (pad_loop_w placement max_len zs acc w)) = py_rng w
     \<and> map (\<lambda>a. heap (snd (pad_loop_w placement max_len zs acc w)) ! a)
            (fst (pad_loop_w placement max_len zs acc w))
        = map (\<lambda>a. heap w ! a) acc @ map (\<lambda>(a, l). pad_seq placement max_len (heap w ! a)) zs"
  using assms
proof (induction zs arbitrary: acc w)
  case Nil
  then show ?case by simp
next
  case (Cons z zs)
  obtain seq seq_len where z: "z = (seq, seq_len)" by (cases z)
  have v: "seq < length (heap w)" "seq_len = length (heap w ! seq)"
    using Cons.prems(1) z by auto
  define w2 where "w2 = w\<lparr>heap := heap w @ [replicate (max_len - seq_len) 0,
      pad_seq placement max_len (heap w ! seq)]\<rparr>"
  define acc2 where "acc2 = acc @ [Suc (length (heap w))]"
  have step: "pad_loop_w placement max_len (z # zs) acc w = pad_loop_w placement max_len zs acc2 w2"
    unfolding z w2_def acc2_def by (rule pad_loop_w_step[OF v])
  have hw2: "heap w2 = heap w @ [replicate (max_len - seq_len) 0,
      pad_seq placement max_len (heap w ! seq)]" "py_rng w2 = py_rng w"
    by (simp_all add: w2_def)
  have old: "heap w2 ! a = heap w ! a" if "a < length (heap w)" for a
    using that by (simp add: hw2 nth_append)
  have p1: "\<forall>(a, l) \<in> set zs. a < length (heap w2) \<and> l = length (heap w2 ! a)"
    using Cons.prems(1) by (auto simp: old) (auto simp: hw2)
  have p2: "\<forall>a \<in> set acc2. a < length (heap w2)"
    using Cons.prems(2) by (auto simp: acc2_def hw2)
  from Cons.IH[OF p1 p2] obtain ext where
    e1: "heap (snd (pad_loop_w placement max_len zs acc2 w2)) = heap w2 @ ext"
    and e2: "py_rng (snd (pad_loop_w placement max_len zs acc2 w2)) = py_rng w2"
    and e3: "map (\<lambda>a. heap (snd (pad_loop_w placement max_len zs acc2 w2)) ! a)
            (fst (pad_loop_w placement max_len zs acc2 w2))
        = map (\<lambda>a. heap w2 ! a) acc2 @ map (\<lambda>(a, l). pad_seq placement max_len (heap w2 ! a)) zs"
    by (elim exE conjE)
  have m1: "map (\<lambda>a. heap w2 ! a) acc2
      = map (\<lambda>a. heap w ! a) acc @ [pad_seq placement max_len (heap w ! seq)]"
    using Cons.prems(2) by (simp add: acc2_def old) (simp add: hw2 nth_append)
  have m2: "map (\<lambda>(a, l). pad_seq placement max_len (heap w2 ! a)) zs
      = map (\<lambda>(a, l). pad_seq placement max_len (heap w ! a)) zs"
    using Cons.prems(1) by (auto simp: old)
  have g1: "heap (snd (pad_loop_w placement max_len (z # zs) acc w))
      = heap w @ ([replicate (max_len - seq_len) 0, pad_seq placement max_len (heap w ! seq)] @ ext)"
    by (simp only: step e1 hw2 append_assoc)
  have g2: "py_rng (snd (pad_loop_w placement max_len (z # zs) acc w)) = py_rng w"
    by (simp only: step e2 hw2)
  have g3: "map (\<lambda>a. heap (snd (pad_loop_w placement max_len (z # zs) acc w)) ! a)
            (fst (pad_loop_w placement max_len (z # zs) acc w))
        = map (\<lambda>a. heap w ! a) acc @ map (\<lambda>(a, l). pad_seq placement max_len (heap w ! a)) (z # zs)"
    unfolding step e3 m1 m2 by (simp add: z)
  show ?case using g1 g2 g3 by blast
qed


lemma SeqPadded_w_spec:
  assumes "\<forall>a \<in> set seqs. a < length (heap w)"
  shows "fst (SeqPadded_w seqs placement w) = SeqPadded (map (\<lambda>a. heap w ! a) seqs) placement
     \<and> py_rng (snd (SeqPadded_w seqs placement w)) = py_rng w
     \<and> (\<exists>ext. heap (snd (SeqPadded_w seqs placement w)) = heap w @ ext)"
proof (cases "seqs = []")
  case True
  then show ?thesis by (simp add: SeqPadded_w_def SeqPadded_def py_max_def)
next
  case False
  define lens where "lens = map (\<lambda>a. length (heap w ! a)) seqs"
  define cs where "cs = map (\<lambda>a. heap w ! a) seqs"
  have lens_cs: "map length cs = lens" by (simp add: cs_def lens_def)
  from False have "lens \<noteq> []" by (simp add: lens_def)
  then obtain m where m: "py_max lens = Inr m"
    by (cases lens) (simp_all add: py_max_def)
  define R where "R = pad_loop_w placement m (zip seqs lens) [] w"
  have z: "\<forall>(a, l) \<in> set (zip seqs lens). a < length (heap w) \<and> l = length (heap w ! a)"
    using assms by (auto simp: lens_def set_zip)
  have e: "\<forall>a \<in> set ([]::addr list). a < length (heap w)" by simp
  from pad_loop_w_spec[OF z e, of placement m] obtain ext where
    h: "heap (snd R) = heap w @ ext" and g: "py_rng (snd R) = py_rng w"
    and c: "map (\<lambda>a. heap (snd R) ! a) (fst R)
        = map (\<lambda>a. heap w ! a) [] @ map (\<lambda>(a, l). pad_seq placement m (heap w ! a)) (zip seqs lens)"
    unfolding R_def by (elim exE conjE)
  have "map (\<lambda>(a, l). pad_seq placement m (heap w ! a)) (zip seqs lens) = map (pad_seq placement m) cs"
    unfolding lens_def cs_def by (induction seqs) simp_all
  with c have c': "map (\<lambda>a. heap (snd R) ! a) (fst R) = map (pad_seq placement m) cs" by simp
  have pure: "SeqPadded cs placement =
      (case asarray (map (pad_seq placement m) cs) of
         None \<Rightarrow> Inl ValueError | Some A \<Rightarrow> Inr (transpose_1_0 A))"
  proof -
    have "pad_loop placement m (zip cs (map length cs)) [] = map (pad_seq placement m) cs"
      by (simp only: pad_loop_zip append_Nil)
    then show ?thesis
      unfolding SeqPadded_def Let_def by (simp only: lens_cs m sum.case)
  qed
  have st: "SeqPadded_w seqs placement w =
      (case asarray (map (pad_seq placement m) cs) of
         None \<Rightarrow> (Inl ValueError, snd R) | Some A \<Rightarrow> (Inr (transpose_1_0 A), snd R))"
    unfolding SeqPadded_w_def Let_def lens_def[symmetric]
    by (simp only: m sum.case R_def[symmetric] case_prod_beta c')
  have 1: "fst (SeqPadded_w seqs placement w) = SeqPadded cs placement"
    unfolding st pure by (simp split: option.split)
  have 2: "snd (SeqPadded_w seqs placement w) = snd R"
    unfolding st by (simp split: option.split)
  show ?thesis
    unfolding cs_def[symmetric] using 1 2 h g by auto
qed

text \<open>
  Claim C4. \<open>SeqPadded\<close> is a pure, deterministic function. Run on a store in which the
  sequences are list objects, it returns the value that the pure model computes from the
  contents of these objects and the placement; so two calls with equal sequences and equal
  placement return equal results, whatever the addresses, the rest of the store and the state
  of the generator are. It leaves the shared generator as it was, and every list object that
  existed before the call (the input sequences among them) keeps its contents: the call only
  allocates new objects.
\<close>

theorem SeqPadded_pure:
  assumes "\<forall>a \<in> set seqs. a < length (heap w)"
    and "\<forall>a \<in> set seqs'. a < length (heap w')"
    and "map (\<lambda>a. heap w ! a) seqs = map (\<lambda>a. heap w' ! a) seqs'"
  shows "fst (SeqPadded_w seqs placement w) = fst (SeqPadded_w seqs' placement w')
     \<and> fst (SeqPadded_w seqs placement w) = SeqPadded (map (\<lambda>a. heap w ! a) seqs) placement
     \<and> py_rng (snd (SeqPadded_w seqs placement w)) = py_rng w
     \<and> length (heap w) \<le> length (heap (snd (SeqPadded_w seqs placement w)))
     \<and> (\<forall>a < length (heap w). heap (snd (SeqPadded_w seqs placement w)) ! a = heap w ! a)"
proof -
  note s1 = SeqPadded_w_spec[OF assms(1), of placement]
  note s2 = SeqPadded_w_spec[OF assms(2), of placement]
  have r1: "fst (SeqPadded_w seqs placement w) = SeqPadded (map (\<lambda>a. heap w ! a) seqs) placement"
    using s1 by (rule conjunct1)
  have r2: "fst (SeqPadded_w seqs' placement w') = SeqPadded (map (\<lambda>a. heap w' ! a) seqs') placement"
    using s2 by (rule conjunct1)
  have d: "fst (SeqPadded_w seqs placement w) = fst (SeqPadded_w seqs' placement w')"
    by (simp only: r1 r2 assms(3))
  have g: "py_rng (snd (SeqPadded_w seqs placement w)) = py_rng w"
    using s1 by simp
  from s1 obtain ext where e: "heap (snd (SeqPadded_w seqs placement w)) = heap w @ ext"
    by (elim exE conjE)
  have l: "length (heap w) \<le> length (heap (snd (SeqPadded_w seqs placement w)))"
    by (simp add: e)
  have f: "\<forall>a < length (heap w). heap (snd (SeqPadded_w seqs placement w)) ! a = heap w ! a"
    by (simp add: e nth_append)
  show ?thesis by (intro conjI) (fact d r1 g l f)+
qed

theorem SeqPadded_pure_witness:
  "list_all (\<lambda>a. a < length (heap \<lparr>heap = [[1], [1, 2, 3]], py_rng = (\<lambda>k. k)\<rparr>)) [0, 1]
   \<and> list_all (\<lambda>a. a < length (heap \<lparr>heap = [[9], [1, 2, 3], [1]], py_rng = (\<lambda>k. 7)\<rparr>)) [2, 1]
   \<and> map (\<lambda>a. heap \<lparr>heap = [[1], [1, 2, 3]], py_rng = (\<lambda>k. k)\<rparr> ! a) [0, 1]
       = map (\<lambda>a. heap \<lparr>heap = [[9], [1, 2, 3], [1]], py_rng = (\<lambda>k. 7)\<rparr> ! a) [2, 1]
   \<and> fst (SeqPadded_w [0, 1] ''front'' \<lparr>heap = [[1], [1, 2, 3]], py_rng = (\<lambda>k. k)\<rparr>)
       = fst (SeqPadded_w [2, 1] ''front'' \<lparr>heap = [[9], [1, 2, 3], [1]], py_rng = (\<lambda>k. 7)\<rparr>)"
proof -
  have h1: "\<forall>a \<in> set [0, 1]. a < length (heap \<lparr>heap = [[1], [1, 2, 3]], py_rng = (\<lambda>k. k)\<rparr>)"
    by simp
  have h2: "\<forall>a \<in> set [2, 1]. a < length (heap \<lparr>heap = [[9], [1, 2, 3], [1]], py_rng = (\<lambda>k. 7)\<rparr>)"
    by simp
  have h3: "map (\<lambda>a. heap \<lparr>heap = [[1], [1, 2, 3]], py_rng = (\<lambda>k. k)\<rparr> ! a) [0, 1]
       = map (\<lambda>a. heap \<lparr>heap = [[9], [1, 2, 3], [1]], py_rng = (\<lambda>k. 7)\<rparr> ! a) [2, 1]"
    by simp
  have c: "fst (SeqPadded_w [0, 1] ''front'' \<lparr>heap = [[1], [1, 2, 3]], py_rng = (\<lambda>k. k)\<rparr>)
       = fst (SeqPadded_w [2, 1] ''front'' \<lparr>heap = [[9], [1, 2, 3], [1]], py_rng = (\<lambda>k. 7)\<rparr>)"
    using SeqPadded_pure[OF h1 h2 h3, of "''front''"] by (rule conjunct1)
  show ?thesis
    unfolding list_all_iff by (intro conjI) (fact h1 h2 h3 c)+
qed

section \<open>Properties of LenClip\<close>

lemma split_space_nonempty: "split_space x \<noteq> []"
  by (induction x) (auto split: list.splits)

lemma join_split: "join_space (split_space x) = x"
proof (induction x)
  case Nil
  then show ?case by simp
next
  case (Cons c cs)
  obtain w ws where s: "split_space cs = w # ws"
    using split_space_nonempty[of cs] by (cases "split_space cs") auto
  show ?case
  proof (cases "c = CHR '' ''")
    case True
    with Cons s show ?thesis by simp
  next
    case False
    with Cons s show ?thesis by (cases ws) auto
  qed
qed

lemma prefix_join_take: "prefix (join_space (take k ws)) (join_space ws)"
proof (induction ws arbitrary: k rule: join_space.induct)
  case 1
  then show ?case by simp
next
  case (2 w)
  then show ?case by (cases k) auto
next
  case (3 w v vs)
  show ?case
  proof (cases k)
    case 0
    then show ?thesis by simp
  next
    case (Suc k')
    show ?thesis
    proof (cases k')
      case 0
      with Suc show ?thesis by simp
    next
      case (Suc k'')
      with \<open>k = Suc k'\<close> 3[of k'] show ?thesis by simp
    qed
  qed
qed

lemma length_join:
  "ws \<noteq> [] \<Longrightarrow> int (length (join_space ws)) + 1 = sum_list (map (\<lambda>w. int (length w) + 1) ws)"
  by (induction ws rule: join_space.induct) auto

lemma cumsum_from_nth:
  "k < length xs \<Longrightarrow> cumsum_from acc xs ! k = acc + sum_list (take (Suc k) xs)"
proof (induction xs arbitrary: acc k)
  case Nil
  then show ?case by simp
next
  case (Cons x xs)
  then show ?case by (cases k) auto
qed

lemma length_cumsum_from: "length (cumsum_from acc xs) = length xs"
  by (induction xs arbitrary: acc) auto

lemma sum_list_update_int:
  "i < length xs \<Longrightarrow> sum_list (xs[i := v]) = sum_list xs - xs ! i + (v::int)"
proof (induction xs arbitrary: i)
  case Nil
  then show ?case by simp
next
  case (Cons x xs)
  then show ?case by (cases i) auto
qed

lemma sum_take_update:
  "i < length xs \<Longrightarrow> k < length xs \<Longrightarrow>
   sum_list (take (Suc k) (xs[i := v])) = sum_list (take (Suc k) xs) + (if i \<le> k then (v::int) - xs ! i else 0)"
proof (cases "i \<le> k")
  case True
  assume "i < length xs" "k < length xs"
  with True have "take (Suc k) (xs[i := v]) = (take (Suc k) xs)[i := v]"
    by (simp add: take_update_swap)
  moreover have "i < length (take (Suc k) xs)" using True \<open>k < length xs\<close> by simp
  ultimately show ?thesis using True by (simp add: sum_list_update_int)
next
  case False
  then show ?thesis by simp
qed

lemma take_Suc_nonempty: "k < length ws \<Longrightarrow> take (Suc k) ws \<noteq> []"
  by (cases ws) simp_all

lemma length_clip_lens: "length (clip_lens words) = length words"
  by (simp add: clip_lens_def cumsum_def length_cumsum_from Let_def)

lemma clip_lens_nth:
  assumes "k < length words"
  shows "clip_lens words ! k =
     int (length (join_space (take (Suc k) words))) - (if Suc k = length words then 1 else 0)"
proof -
  define l0 where "l0 = map (\<lambda>word. int (length word) + 1) words"
  define l1 where "l1 = l0[0 := l0 ! 0 - 1]"
  define l2 where "l2 = l1[length l1 - 1 := l1 ! (length l1 - 1) - 1]"
  have len: "length l0 = length words" "length l1 = length words" "length l2 = length words"
    by (simp_all add: l0_def l1_def l2_def)
  have cl: "clip_lens words = cumsum_from 0 l2"
    by (simp add: clip_lens_def cumsum_def Let_def l0_def l1_def l2_def)
  have pos: "0 < length words" using assms by linarith
  have s0: "sum_list (take (Suc k) l0) = int (length (join_space (take (Suc k) words))) + 1"
  proof -
    have "take (Suc k) words \<noteq> []" using assms by (rule take_Suc_nonempty)
    from length_join[OF this] show ?thesis by (simp add: l0_def take_map)
  qed
  have s1: "sum_list (take (Suc k) l1) = sum_list (take (Suc k) l0) - 1"
    unfolding l1_def using sum_take_update[of 0 l0 k "l0 ! 0 - 1"] assms pos len by simp
  have s2: "sum_list (take (Suc k) l2)
      = sum_list (take (Suc k) l1) - (if Suc k = length words then 1 else 0)"
    unfolding l2_def
    using sum_take_update[of "length l1 - 1" l1 k "l1 ! (length l1 - 1) - 1"] assms pos len
    by auto
  have "clip_lens words ! k = sum_list (take (Suc k) l2)"
    unfolding cl using cumsum_from_nth[of k l2 0] assms len by simp
  then show ?thesis using s0 s1 s2 by simp
qed


lemma join_take_Suc_length:
  assumes "Suc k < length words"
  shows "int (length (join_space (take (Suc (Suc k)) words)))
       = int (length (join_space (take (Suc k) words))) + 1 + int (length (words ! Suc k))"
proof -
  have "k < length words" using assms by linarith
  then have a1: "take (Suc k) words \<noteq> []" by (rule take_Suc_nonempty)
  have a2: "take (Suc (Suc k)) words \<noteq> []" using assms by (rule take_Suc_nonempty)
  note a = a1 a2
  have "take (Suc (Suc k)) words = take (Suc k) words @ [words ! Suc k]"
    using assms by (simp add: take_Suc_conv_app_nth)
  then have "sum_list (map (\<lambda>w. int (length w) + 1) (take (Suc (Suc k)) words))
      = sum_list (map (\<lambda>w. int (length w) + 1) (take (Suc k) words)) + (int (length (words ! Suc k)) + 1)"
    by simp
  then show ?thesis
    using length_join[OF a(1)] length_join[OF a(2)] by linarith
qed

lemma clip_lens_mono_Suc:
  assumes "Suc k < length words"
  shows "clip_lens words ! k \<le> clip_lens words ! Suc k"
proof -
  have k: "k < length words" using assms by simp
  show ?thesis
    using clip_lens_nth[OF k] clip_lens_nth[OF assms] join_take_Suc_length[OF assms] assms
    by (simp split: if_splits)
qed

lemma sorted_clip_lens: "sorted (clip_lens words)"
  using clip_lens_mono_Suc by (simp add: sorted_iff_nth_Suc length_clip_lens)

lemma filter_sorted_zip:
  "sorted (map snd zs) \<Longrightarrow>
   filter (\<lambda>z. snd z < (n::int)) zs = take (length (filter (\<lambda>z. snd z < n) zs)) zs"
proof (induction zs)
  case Nil
  then show ?case by simp
next
  case (Cons z zs)
  show ?case
  proof (cases "snd z < n")
    case True
    with Cons show ?thesis by auto
  next
    case False
    with Cons.prems have "\<forall>y \<in> set zs. \<not> snd y < n" by auto
    then have "filter (\<lambda>z. snd z < n) zs = []" by (auto simp: filter_empty_conv)
    with False show ?thesis by simp
  qed
qed

lemma clip_one_take:
  "\<exists>k \<le> length (split_space x).
     clip_one n x = join_space (take k (split_space x))
     \<and> (0 < k \<longrightarrow> clip_lens (split_space x) ! (k - 1) < n)"
proof -
  define words where "words = split_space x"
  define zs where "zs = zip words (clip_lens words)"
  define k where "k = length (filter (\<lambda>z. snd z < n) zs)"
  have pq: "(\<lambda>(w, l). l < n) = (\<lambda>z :: string \<times> int. snd z < n)" by auto
  have lz: "length zs = length words" by (simp add: zs_def length_clip_lens)
  have ms: "map snd zs = clip_lens words" "map fst zs = words"
    by (simp_all add: zs_def length_clip_lens)
  have f: "filter (\<lambda>(w, l). l < n) zs = take k zs"
    unfolding k_def pq using sorted_clip_lens[of words] by (intro filter_sorted_zip) (simp add: ms)
  have kl: "k \<le> length words" unfolding k_def using length_filter_le[of _ zs] lz by simp
  have c: "clip_one n x = join_space (take k words)"
    by (simp add: clip_one_def Let_def words_def[symmetric] zs_def[symmetric] f take_map[symmetric] ms)
  have sel: "clip_lens words ! (k - 1) < n" if "0 < k"
  proof -
    have "k - 1 < length (take k zs)" using that kl lz by simp
    then have "take k zs ! (k - 1) \<in> set (filter (\<lambda>(w, l). l < n) zs)"
      unfolding f by (rule nth_mem)
    then have "snd (take k zs ! (k - 1)) < n" unfolding pq by simp
    moreover have "take k zs ! (k - 1) = zs ! (k - 1)" using that by simp
    moreover have "snd (zs ! (k - 1)) = map snd zs ! (k - 1)"
      using that kl lz by simp
    ultimately show ?thesis by (simp add: ms)
  qed
  show ?thesis
    unfolding words_def[symmetric] using kl c sel by blast
qed


lemma join_space_append:
  "xs \<noteq> [] \<Longrightarrow> ys \<noteq> [] \<Longrightarrow> join_space (xs @ ys) = join_space xs @ CHR '' '' # join_space ys"
proof (induction xs rule: join_space.induct)
  case 1
  then show ?case by simp
next
  case (2 w)
  then show ?case by (cases ys) simp_all
next
  case (3 w v vs)
  then show ?case by simp
qed

lemma clip_one_cases:
  "(clip_one n x = x \<and> int (length x) \<le> n)
   \<or> clip_one n x = []
   \<or> ((\<exists>rest. x = clip_one n x @ CHR '' '' # rest) \<and> int (length (clip_one n x)) < n)"
proof -
  define words where "words = split_space x"
  from clip_one_take[of x n] obtain k where kl: "k \<le> length words"
    and c: "clip_one n x = join_space (take k words)"
    and sel: "0 < k \<longrightarrow> clip_lens words ! (k - 1) < n"
    unfolding words_def by (elim exE conjE)
  have x: "join_space words = x" by (simp add: words_def join_split)
  consider "k = 0" | "0 < k" "k = length words" | "0 < k" "k < length words"
    using kl by linarith
  then show ?thesis
  proof cases
    case 1
    with c show ?thesis by simp
  next
    case 2
    have k1: "k - 1 < length words" "Suc (k - 1) = k" using 2 by simp_all
    have "clip_lens words ! (k - 1) = int (length (join_space (take k words))) - 1"
      using clip_lens_nth[OF k1(1)] k1(2) 2(2) by simp
    with sel 2 c x show ?thesis by simp
  next
    case 3
    have k1: "k - 1 < length words" "Suc (k - 1) = k" using 3 by simp_all
    have "clip_lens words ! (k - 1) = int (length (join_space (take k words)))"
      using clip_lens_nth[OF k1(1)] k1(2) 3(2) by simp
    with sel 3 c have lt: "int (length (clip_one n x)) < n" by simp
    have "take k words \<noteq> []" "drop k words \<noteq> []" using 3 by auto
    from join_space_append[OF this]
    have "join_space words = join_space (take k words) @ CHR '' '' # join_space (drop k words)"
      by simp
    then have "x = join_space (take k words) @ CHR '' '' # join_space (drop k words)"
      unfolding x .
    then have "x = clip_one n x @ CHR '' '' # join_space (drop k words)"
      unfolding c .
    with lt show ?thesis by blast
  qed
qed

text \<open>
  What \<open>LenClip\<close> guarantees for every input: each returned string consists of the first
  \<open>k\<close> words of its input string, is a prefix of it that ends at a space (or is empty, or is
  the whole string), and has at most \<open>n\<close> characters; it has fewer than \<open>n\<close> characters
  when the string was clipped.
\<close>

lemma LenClip_prefix_bound:
  "length (LenClip X n) = length X \<and>
   (\<forall>i < length X.
      (\<exists>k \<le> length (split_space (X ! i)).
          LenClip X n ! i = join_space (take k (split_space (X ! i))))
      \<and> prefix (LenClip X n ! i) (X ! i)
      \<and> (LenClip X n ! i = X ! i \<or> LenClip X n ! i = []
           \<or> (\<exists>rest. X ! i = LenClip X n ! i @ CHR '' '' # rest))
      \<and> int (length (LenClip X n ! i)) \<le> max n 0
      \<and> (0 < n \<and> LenClip X n ! i \<noteq> X ! i \<longrightarrow> int (length (LenClip X n ! i)) < n))"
proof (intro conjI allI impI)
  show "length (LenClip X n) = length X" by (simp add: LenClip_def)
next
  fix i assume i: "i < length X"
  then have r: "LenClip X n ! i = clip_one n (X ! i)" by (simp add: LenClip_def)
  show "\<exists>k \<le> length (split_space (X ! i)).
          LenClip X n ! i = join_space (take k (split_space (X ! i)))"
    unfolding r using clip_one_take[of "X ! i" n] by blast
  show "LenClip X n ! i = X ! i \<or> LenClip X n ! i = []
           \<or> (\<exists>rest. X ! i = LenClip X n ! i @ CHR '' '' # rest)"
    unfolding r using clip_one_cases[of n "X ! i"] by blast
  then show "prefix (LenClip X n ! i) (X ! i)"
    by (auto simp: prefix_def)
  show "int (length (LenClip X n ! i)) \<le> max n 0"
    unfolding r using clip_one_cases[of n "X ! i"] by auto
next
  fix i assume i: "i < length X" and h: "0 < n \<and> LenClip X n ! i \<noteq> X ! i"
  from i have r: "LenClip X n ! i = clip_one n (X ! i)" by (simp add: LenClip_def)
  show "int (length (LenClip X n ! i)) < n"
    using h unfolding r using clip_one_cases[of n "X ! i"] by auto
qed

text \<open>
  Claim C5 says that every returned string is shorter than \<open>N\<close>. The cumulative length of
  the last word is too small by one (\<^verbatim>\<open>lens[-1] -= 1\<close> after \<^verbatim>\<open>lens[0] -= 1\<close>), so a string of
  exactly \<open>N\<close> characters passes the test \<^verbatim>\<open>l < n\<close> with all its words and is returned whole:
  for \<^verbatim>\<open>'hello'\<close> the list of lengths is \<open>[6]\<close>, then \<open>[5]\<close>, then \<open>[4]\<close>, and \<open>4 < 5\<close>.
\<close>

theorem LenClip_length_at_limit:
  "LenClip [''hello''] 5 = [''hello''] \<and> \<not> int (length ''hello'') < 5"
  by code_simp

section \<open>Properties of OneHot\<close>

lemma OneHot_default:
  assumes "X \<noteq> []" and "\<forall>v \<in> set X. 0 \<le> v"
  shows "OneHot X None negative_class =
     Inr \<lparr>nrows = length X, ncols = nat (Max (set X) + 1),
          rows = map (\<lambda>v. (replicate (nat (Max (set X) + 1)) negative_class)[nat v := 1]) X\<rparr>"
proof -
  define m where "m = Max (set X)"
  have mx: "py_max X = Inr m" unfolding m_def by (rule py_max_Max[OF assms(1)])
  have le: "v \<le> m" if "v \<in> set X" for v using that unfolding m_def by simp
  obtain v0 where "v0 \<in> set X" using assms(1) by (cases X) auto
  with le assms(2) have m0: "0 \<le> m" by force
  have nex: "\<not> list_ex (\<lambda>v. v < - (m + 1) \<or> m + 1 \<le> v) X"
    using le assms(2) m0 by (fastforce simp: list_ex_iff)
  have rw: "map (\<lambda>v. (replicate (nat (m + 1)) (1 * negative_class))[nat (if v < 0 then v + (m + 1) else v) := 1]) X
      = map (\<lambda>v. (replicate (nat (m + 1)) negative_class)[nat v := 1]) X"
    using assms(2) by (intro map_cong) auto
  show ?thesis
    unfolding m_def[symmetric] using m0 nex assms(2)
    by (force simp: OneHot_def mx)
qed

text \<open>
  Claim C6. With the class count left out, \<open>OneHot\<close> on a non-empty array of class indices
  (non-negative integers) uses \<open>max X + 1\<close> classes: the result has one row per sample and
  \<open>max X + 1\<close> columns, with \<open>1\<close> in the column of the sample's index and the negative-class
  fill in every other column. And \<open>OneHot [0, 2]\<close> with \<open>n = 3\<close> is \<open>[[1, 0, 0], [0, 0, 1]]\<close>.
\<close>

theorem OneHot_default_classes:
  assumes "X \<noteq> []" and "\<forall>v \<in> set X. 0 \<le> v"
  shows "\<exists>A. OneHot X None negative_class = Inr A
     \<and> nrows A = length X \<and> int (ncols A) = Max (set X) + 1
     \<and> length (rows A) = nrows A
     \<and> (\<forall>r < length X. length (rows A ! r) = ncols A
           \<and> (\<forall>c < ncols A. rows A ! r ! c = (if int c = X ! r then 1 else negative_class)))
     \<and> OneHot [0, 2] (Some 3) 0 = Inr \<lparr>nrows = 2, ncols = 3, rows = [[1, 0, 0], [0, 0, 1]]\<rparr>"
proof -
  define A where "A = \<lparr>nrows = length X, ncols = nat (Max (set X) + 1),
          rows = map (\<lambda>v. (replicate (nat (Max (set X) + 1)) negative_class)[nat v := 1]) X\<rparr>"
  have eq: "OneHot X None negative_class = Inr A"
    unfolding A_def by (rule OneHot_default[OF assms])
  have A: "nrows A = length X" "ncols A = nat (Max (set X) + 1)"
    "rows A = map (\<lambda>v. (replicate (nat (Max (set X) + 1)) negative_class)[nat v := 1]) X"
    by (simp_all add: A_def)
  obtain v0 where "v0 \<in> set X" using assms(1) by (cases X) auto
  then have "v0 \<le> Max (set X)" "0 \<le> v0" using assms(2) by simp_all
  then have m0: "0 \<le> Max (set X)" by linarith
  have 2: "int (ncols A) = Max (set X) + 1" using m0 by (simp add: A)
  have 3: "length (rows A) = nrows A" by (simp add: A)
  have 4: "\<forall>r < length X. length (rows A ! r) = ncols A
           \<and> (\<forall>c < ncols A. rows A ! r ! c = (if int c = X ! r then 1 else negative_class))"
  proof (intro allI impI conjI)
    fix r assume r: "r < length X"
    show "length (rows A ! r) = ncols A" using r by (simp add: A)
    fix c assume c: "c < ncols A"
    have x: "0 \<le> X ! r" using r assms(2) by simp
    have "rows A ! r = (replicate (ncols A) negative_class)[nat (X ! r) := 1]"
      using r by (simp add: A)
    then show "rows A ! r ! c = (if int c = X ! r then 1 else negative_class)"
      using c x by (auto simp: nth_list_update)
  qed
  have 5: "OneHot [0, 2] (Some 3) 0 = Inr \<lparr>nrows = 2, ncols = 3, rows = [[1, 0, 0], [0, 0, 1]]\<rparr>"
    by (simp add: OneHot_def eval_nat_numeral)
  show ?thesis by (intro exI[of _ A] conjI) (fact eq A(1) 2 3 4 5)+
qed

theorem OneHot_default_classes_witness:
  "[0, 2] \<noteq> ([] :: int list) \<and> list_all (\<lambda>v. 0 \<le> v) [0, 2 :: int]
   \<and> (\<exists>A. OneHot [0, 2] None 0 = Inr A \<and> nrows A = length [0, 2 :: int]
          \<and> int (ncols A) = Max (set [0, 2]) + 1)"
proof -
  have h1: "[0, 2] \<noteq> ([] :: int list)" by simp
  have h2: "\<forall>v \<in> set [0, 2 :: int]. 0 \<le> v" by simp
  from OneHot_default_classes[OF h1 h2, of 0]
  obtain A where "OneHot [0, 2] None 0 = Inr A" "nrows A = length [0, 2 :: int]"
    "int (ncols A) = Max (set [0, 2]) + 1"
    by (elim exE conjE)
  then have e: "\<exists>A. OneHot [0, 2] None 0 = Inr A \<and> nrows A = length [0, 2 :: int]
          \<and> int (ncols A) = Max (set [0, 2]) + 1"
    by (intro exI[of _ A] conjI)
  show ?thesis unfolding list_all_iff by (intro conjI) (fact h1 h2 e)+
qed

section \<open>Properties of Standardize\<close>

text \<open>
  Claim C7. \<open>Standardize\<close> computes \<open>x / 127.5 - 1\<close> for each entry; for pixel values in
  \<open>[0, 255]\<close> every result lies in \<open>[-1, 1]\<close>, and the inverse scaling \<open>(y + 1) * 127.5\<close>
  gives the original values back. The statement is about exact arithmetic; in the
  floating-point implementation the last equation holds up to rounding.
\<close>

theorem Standardize_range_inverse:
  assumes "\<forall>x \<in> set X. 0 \<le> x \<and> x \<le> 255"
  shows "length (Standardize X) = length X
     \<and> (\<forall>i < length X. Standardize X ! i = X ! i / 127.5 - 1)
     \<and> (\<forall>y \<in> set (Standardize X). - 1 \<le> y \<and> y \<le> 1)
     \<and> inverse_scaling (Standardize X) = X"
proof (intro conjI)
  show "length (Standardize X) = length X" by (simp add: Standardize_def)
  show "\<forall>i < length X. Standardize X ! i = X ! i / 127.5 - 1"
    by (simp add: Standardize_def)
  show "\<forall>y \<in> set (Standardize X). - 1 \<le> y \<and> y \<le> 1"
    using assms by (auto simp: Standardize_def)
  show "inverse_scaling (Standardize X) = X"
    by (simp add: Standardize_def inverse_scaling_def map_idI)
qed


theorem Standardize_range_inverse_witness:
  "list_all (\<lambda>x. 0 \<le> x \<and> x \<le> 255) [0, 255, 51 :: real]
   \<and> list_all (\<lambda>y. - 1 \<le> y \<and> y \<le> 1) (Standardize [0, 255, 51])
   \<and> inverse_scaling (Standardize [0, 255, 51]) = [0, 255, 51]"
proof -
  have h: "\<forall>x \<in> set [0, 255, 51 :: real]. 0 \<le> x \<and> x \<le> 255" by simp
  note t = Standardize_range_inverse[OF h]
  have a: "\<forall>y \<in> set (Standardize [0, 255, 51]). - 1 \<le> y \<and> y \<le> 1"
    using t by (elim conjE)
  have b: "inverse_scaling (Standardize [0, 255, 51]) = [0, 255, 51]"
    using t by (elim conjE)
  show ?thesis unfolding list_all_iff by (intro conjI) (fact h a b)+
qed

section \<open>Properties of Patch and CenterCrop\<close>

lemma randint_empty: "b < a \<Longrightarrow> randint a b g = Inl ValueError"
  by (simp add: randint_def)

lemma randint_range:
  "randint a b g = Inr (v, g') \<Longrightarrow> a \<le> v \<and> v \<le> b"
proof -
  assume r: "randint a b g = Inr (v, g')"
  then have ab: "a \<le> b" by (auto simp: randint_def split: if_splits)
  then have "0 < nat (b - a + 1)" by simp
  then have "g 0 mod nat (b - a + 1) < nat (b - a + 1)" by (rule mod_less_divisor)
  then have "int (g 0 mod nat (b - a + 1)) < b - a + 1" using ab by linarith
  moreover from r ab have "v = a + int (g 0 mod nat (b - a + 1))"
    by (simp add: randint_def)
  ultimately show ?thesis by simp
qed

lemma randint_ok: "a \<le> b \<Longrightarrow> \<exists>v g'. randint a b g = Inr (v, g')"
  by (simp add: randint_def)

lemma randint_cases:
  obtains (err) "b < a" "randint a b g = Inl ValueError"
  | (ok) v g' where "a \<le> b" "randint a b g = Inr (v, g')" "a \<le> v" "v \<le> b"
proof (cases "b < a")
  case True
  then show ?thesis using randint_empty[of b a g] err by simp
next
  case False
  then have ab: "a \<le> b" by simp
  from randint_ok[OF this, of g] obtain v g' where r: "randint a b g = Inr (v, g')" by blast
  from randint_range[OF r] ab r show ?thesis using ok by blast
qed

lemma slice_bounds_inside:
  "0 \<le> a \<Longrightarrow> a \<le> b \<Longrightarrow> b \<le> int len \<Longrightarrow> slice_bounds len a b = (nat a, nat b)"
  by (simp add: slice_bounds_def Let_def min_def)

lemma ncols_slice2:
  "ncols (slice2 x a b c d) = snd (slice_bounds (ncols x) c d) - fst (slice_bounds (ncols x) c d)"
  by (simp add: slice2_def Let_def case_prod_beta)

lemma nrows_slice2:
  "nrows (slice2 x a b c d) = snd (slice_bounds (nrows x) a b) - fst (slice_bounds (nrows x) a b)"
  by (simp add: slice2_def Let_def case_prod_beta)

lemma ncols_slice2_inside:
  assumes "0 \<le> c" "0 \<le> pw" "c + pw \<le> int (ncols x)"
  shows "ncols (slice2 x a b c (c + pw)) = nat pw"
proof -
  have "slice_bounds (ncols x) c (c + pw) = (nat c, nat (c + pw))"
    using assms by (intro slice_bounds_inside) simp_all
  then show ?thesis using assms by (simp add: ncols_slice2 nat_add_distrib)
qed

lemma round_half_bounds: "0 \<le> d \<Longrightarrow> 0 \<le> round_half d \<and> round_half d \<le> d"
  by (simp add: round_half_def)

lemma Patch_loop_ok:
  "Patch_loop X pw ph g Xt = Inr (Y, g') \<Longrightarrow>
   \<exists>Ys. Y = Xt @ Ys \<and> list_all2 (patch_of pw ph) X Ys"
proof (induction X arbitrary: g Xt)
  case Nil
  then show ?case by simp
next
  case (Cons x X)
  show ?case
  proof (cases rule: randint_cases[of "int (nrows x) - pw" 0 g])
    case err
    with Cons.prems show ?thesis by (simp add: Let_def)
  next
    case (ok i g1)
    show ?thesis
    proof (cases rule: randint_cases[of "int (ncols x) - ph" 0 g1])
      case err
      with ok Cons.prems show ?thesis by (simp add: Let_def)
    next
      case ok2: (ok j g2)
      from Cons.prems ok ok2
      have "Patch_loop X pw ph g2 (Xt @ [slice2 x i (i + pw) j (j + pw)]) = Inr (Y, g')"
        by (simp add: Let_def)
      from Cons.IH[OF this] obtain Ys where
        Y: "Y = (Xt @ [slice2 x i (i + pw) j (j + pw)]) @ Ys" and a: "list_all2 (patch_of pw ph) X Ys"
        by blast
      have "patch_of pw ph x (slice2 x i (i + pw) j (j + pw))"
        unfolding patch_of_def using ok ok2 by blast
      with a have "list_all2 (patch_of pw ph) (x # X) (slice2 x i (i + pw) j (j + pw) # Ys)"
        by simp
      with Y show ?thesis by (intro exI[of _ "slice2 x i (i + pw) j (j + pw) # Ys"]) simp
    qed
  qed
qed

lemma Patch_loop_fail:
  "\<exists>x \<in> set X. int (nrows x) < pw \<or> int (ncols x) < ph \<Longrightarrow>
   Patch_loop X pw ph g Xt = Inl ValueError"
proof (induction X arbitrary: g Xt)
  case Nil
  then show ?case by simp
next
  case (Cons x X)
  show ?case
  proof (cases rule: randint_cases[of "int (nrows x) - pw" 0 g])
    case err
    then show ?thesis by (simp add: Let_def)
  next
    case (ok i g1)
    show ?thesis
    proof (cases rule: randint_cases[of "int (ncols x) - ph" 0 g1])
      case err
      with ok show ?thesis by (simp add: Let_def)
    next
      case ok2: (ok j g2)
      with ok Cons.prems have "\<exists>x \<in> set X. int (nrows x) < pw \<or> int (ncols x) < ph"
        by auto
      from Cons.IH[OF this] ok ok2 show ?thesis by (simp add: Let_def)
    qed
  qed
qed



lemma center_crop_ncols:
  assumes "0 \<le> pw" "pw \<le> ph" "ph \<le> int (ncols x)"
  shows "ncols (center_crop pw ph x) = nat pw"
proof -
  define j where "j = round_half (int (ncols x) - ph)"
  have "0 \<le> int (ncols x) - ph" using assms by simp
  from round_half_bounds[OF this] have j: "0 \<le> j" "j \<le> int (ncols x) - ph"
    by (simp_all add: j_def)
  then have "j + pw \<le> int (ncols x)" using assms by linarith
  from ncols_slice2_inside[OF j(1) assms(1) this]
  show ?thesis by (simp add: center_crop_def Let_def j_def)
qed

lemma patch_of_ncols:
  assumes "patch_of pw ph x y" "0 \<le> pw" "pw \<le> ph"
  shows "ncols y = nat pw"
proof -
  from assms(1) obtain i j where j: "0 \<le> j" "j \<le> int (ncols x) - ph"
    and y: "y = slice2 x i (i + pw) j (j + pw)"
    unfolding patch_of_def by blast
  have "j + pw \<le> int (ncols x)" using j assms by linarith
  from ncols_slice2_inside[OF j(1) assms(2) this] y show ?thesis by simp
qed


text \<open>
  Claim C10 (as amended). \<open>Patch\<close> and \<open>CenterCrop\<close> slice the second axis of the image with
  \<open>pw\<close>, not with \<open>ph\<close>: the crop is \<^verbatim>\<open>x[i:i+pw, j:j+pw]\<close>, and \<open>ph\<close> enters only through the
  offset \<open>j\<close>. When \<open>0 \<le> pw \<le> ph\<close> (and, for \<open>CenterCrop\<close>, \<open>ph\<close> is at most the length of the
  second axis) the window \<open>j..j+pw\<close> lies inside the image and the second dimension of the
  crop is exactly \<open>pw\<close>, whatever \<open>ph\<close> is.
\<close>

theorem crop_second_axis:
  "(\<forall>k < length X. CenterCrop X pw ph ! k =
        slice2 (X ! k) (round_half (int (nrows (X ! k)) - pw))
                       (round_half (int (nrows (X ! k)) - pw) + pw)
                       (round_half (int (ncols (X ! k)) - ph))
                       (round_half (int (ncols (X ! k)) - ph) + pw))
   \<and> (0 \<le> pw \<and> pw \<le> ph \<longrightarrow>
        (\<forall>k < length X. ph \<le> int (ncols (X ! k)) \<longrightarrow> ncols (CenterCrop X pw ph ! k) = nat pw))
   \<and> (\<forall>Y g'. Patch X pw ph g = Inr (Y, g') \<longrightarrow>
        length Y = length X
        \<and> (\<forall>k < length X.
              (\<exists>i j. 0 \<le> j \<and> j \<le> int (ncols (X ! k)) - ph
                     \<and> Y ! k = slice2 (X ! k) i (i + pw) j (j + pw))
              \<and> (0 \<le> pw \<and> pw \<le> ph \<longrightarrow> ncols (Y ! k) = nat pw)))"
proof (intro conjI allI impI)
  fix k assume "k < length X"
  then show "CenterCrop X pw ph ! k =
        slice2 (X ! k) (round_half (int (nrows (X ! k)) - pw))
                       (round_half (int (nrows (X ! k)) - pw) + pw)
                       (round_half (int (ncols (X ! k)) - ph))
                       (round_half (int (ncols (X ! k)) - ph) + pw)"
    by (simp add: CenterCrop_def center_crop_def Let_def)
next
  fix k assume "0 \<le> pw \<and> pw \<le> ph" "k < length X" "ph \<le> int (ncols (X ! k))"
  then show "ncols (CenterCrop X pw ph ! k) = nat pw"
    by (simp add: CenterCrop_def center_crop_ncols)
next
  fix Y g' assume p: "Patch X pw ph g = Inr (Y, g')"
  then obtain Ys where "Y = [] @ Ys" and a: "list_all2 (patch_of pw ph) X Ys"
    unfolding Patch_def using Patch_loop_ok[of X pw ph g "[]" Y g'] by blast
  then have a: "list_all2 (patch_of pw ph) X Y" by simp
  show "length Y = length X" using a by (simp add: list_all2_lengthD)
  fix k assume k: "k < length X"
  from a k have pk: "patch_of pw ph (X ! k) (Y ! k)" by (rule list_all2_nthD)
  then show "\<exists>i j. 0 \<le> j \<and> j \<le> int (ncols (X ! k)) - ph
                     \<and> Y ! k = slice2 (X ! k) i (i + pw) j (j + pw)"
    unfolding patch_of_def by blast
  assume "0 \<le> pw \<and> pw \<le> ph"
  with pk show "ncols (Y ! k) = nat pw" by (simp add: patch_of_ncols)
qed

theorem crop_second_axis_witness:
  "(0::int) \<le> 1 \<and> (1::int) \<le> 2
   \<and> (2::int) \<le> int (ncols ([\<lparr>nrows = 3, ncols = 3, rows = [[1, 2, 3], [4, 5, 6], [7, 8, 9 :: nat]]\<rparr>] ! 0))
   \<and> ncols (CenterCrop [\<lparr>nrows = 3, ncols = 3, rows = [[1, 2, 3], [4, 5, 6], [7, 8, 9 :: nat]]\<rparr>] 1 2 ! 0) = nat 1
   \<and> (\<exists>Y g'. Patch [\<lparr>nrows = 3, ncols = 3, rows = [[1, 2, 3], [4, 5, 6], [7, 8, 9 :: nat]]\<rparr>] 1 2 (\<lambda>k. 1) = Inr (Y, g')
        \<and> ncols (Y ! 0) = nat 1)"
proof -
  define x where "x = \<lparr>nrows = 3, ncols = 3, rows = [[1, 2, 3], [4, 5, 6], [7, 8, 9 :: nat]]\<rparr>"
  note t = crop_second_axis[of "[x]" 1 2 "\<lambda>k. 1"]
  have h: "(0::int) \<le> 1 \<and> (1::int) \<le> 2" by simp
  have k: "(0::nat) < length [x]" by simp
  have c: "(2::int) \<le> int (ncols ([x] ! 0))" by (simp add: x_def)
  from t have t2: "0 \<le> (1::int) \<and> (1::int) \<le> 2 \<longrightarrow>
        (\<forall>k < length [x]. 2 \<le> int (ncols ([x] ! k)) \<longrightarrow> ncols (CenterCrop [x] 1 2 ! k) = nat 1)"
    by (elim conjE)
  from t2 h have "\<forall>k < length [x]. 2 \<le> int (ncols ([x] ! k)) \<longrightarrow> ncols (CenterCrop [x] 1 2 ! k) = nat 1"
    by (rule mp)
  then have "0 < length [x] \<longrightarrow> 2 \<le> int (ncols ([x] ! 0)) \<longrightarrow> ncols (CenterCrop [x] 1 2 ! 0) = nat 1"
    by (rule spec)
  with k c have r1: "ncols (CenterCrop [x] 1 2 ! 0) = nat 1" by (elim impE)
  have "\<not> isl (Patch [x] 1 2 (\<lambda>k. 1))" unfolding x_def by code_simp
  then obtain r where "Patch [x] 1 2 (\<lambda>k. 1) = Inr r"
    by (cases "Patch [x] 1 2 (\<lambda>k. 1)") simp_all
  then obtain Y g' where p: "Patch [x] 1 2 (\<lambda>k. 1) = Inr (Y, g')"
    by (cases r) simp
  from t have t3: "\<forall>Y g'. Patch [x] 1 2 (\<lambda>k. 1) = Inr (Y, g') \<longrightarrow>
        length Y = length [x]
        \<and> (\<forall>k < length [x].
              (\<exists>i j. 0 \<le> j \<and> j \<le> int (ncols ([x] ! k)) - 2
                     \<and> Y ! k = slice2 ([x] ! k) i (i + 1) j (j + 1))
              \<and> (0 \<le> (1::int) \<and> (1::int) \<le> 2 \<longrightarrow> ncols (Y ! k) = nat 1))"
    by (elim conjE)
  from t3 p have "\<forall>k < length [x].
              (\<exists>i j. 0 \<le> j \<and> j \<le> int (ncols ([x] ! k)) - 2
                     \<and> Y ! k = slice2 ([x] ! k) i (i + 1) j (j + 1))
              \<and> (0 \<le> (1::int) \<and> (1::int) \<le> 2 \<longrightarrow> ncols (Y ! k) = nat 1)"
    by blast
  with k have "0 \<le> (1::int) \<and> (1::int) \<le> 2 \<longrightarrow> ncols (Y ! 0) = nat 1" by blast
  with h have r2: "ncols (Y ! 0) = nat 1" by (rule rev_mp)
  from p r2 have e: "\<exists>Y g'. Patch [x] 1 2 (\<lambda>k. 1) = Inr (Y, g') \<and> ncols (Y ! 0) = nat 1"
    by (intro exI conjI)
  show ?thesis unfolding x_def[symmetric] by (intro conjI) (fact h[THEN conjunct1] h[THEN conjunct2] c r1 e)+
qed


text \<open>
  As the claim C10 is stated, \<open>ph\<close> never affects the extent of the crop. When \<open>pw > ph\<close> the
  window can pass the border of the image, where the slice is clipped: on a \<open>6 \<times> 6\<close> image
  with \<open>pw = 5\<close>, the crop has four columns for \<open>ph = 2\<close> (offset \<open>j = 2\<close>, columns \<open>2..5\<close>) and
  five columns for \<open>ph = 4\<close> (offset \<open>j = 1\<close>).
\<close>

theorem crop_extent_depends_on_ph_counterexample:
  "ncols (CenterCrop [\<lparr>nrows = 6, ncols = 6,
        rows = [[0, 1, 2, 3, 4, 5], [10, 11, 12, 13, 14, 15], [20, 21, 22, 23, 24, 25],
                [30, 31, 32, 33, 34, 35], [40, 41, 42, 43, 44, 45], [50, 51, 52, 53, 54, 55 :: nat]]\<rparr>] 5 2 ! 0) = 4
   \<and> ncols (CenterCrop [\<lparr>nrows = 6, ncols = 6,
        rows = [[0, 1, 2, 3, 4, 5], [10, 11, 12, 13, 14, 15], [20, 21, 22, 23, 24, 25],
                [30, 31, 32, 33, 34, 35], [40, 41, 42, 43, 44, 45], [50, 51, 52, 53, 54, 55 :: nat]]\<rparr>] 5 4 ! 0) = 5"
  by code_simp


lemma slice_bounds_le:
  "fst (slice_bounds len a b) \<le> len \<and> snd (slice_bounds len a b) \<le> len"
  by (auto simp: slice_bounds_def Let_def max_def min_def)

lemma slice2_fields:
  assumes "slice_bounds (nrows x) a b = (rlo, rhi)" and "slice_bounds (ncols x) c d = (clo, chi)"
  shows "nrows (slice2 x a b c d) = rhi - rlo" "ncols (slice2 x a b c d) = chi - clo"
    "rows (slice2 x a b c d)
       = map (\<lambda>r. take (chi - clo) (drop clo r)) (take (rhi - rlo) (drop rlo (rows x)))"
  using assms by (simp_all add: slice2_def Let_def)

lemma slice2_entries:
  assumes sb: "slice_bounds (nrows x) a b = (rlo, rhi)" "slice_bounds (ncols x) c d = (clo, chi)"
    and wf: "length (rows x) = nrows x" "list_all (\<lambda>r. length r = ncols x) (rows x)"
  shows "length (rows (slice2 x a b c d)) = nrows (slice2 x a b c d)
     \<and> (\<forall>r < nrows (slice2 x a b c d).
           length (rows (slice2 x a b c d) ! r) = ncols (slice2 x a b c d)
           \<and> (\<forall>k < ncols (slice2 x a b c d).
                 rows (slice2 x a b c d) ! r ! k = rows x ! (rlo + r) ! (clo + k)))"
proof -
  note f = slice2_fields[OF sb]
  have le: "rhi \<le> nrows x" "chi \<le> ncols x"
    using slice_bounds_le[of "nrows x" a b] slice_bounds_le[of "ncols x" c d] sb by simp_all
  have len: "length (take (rhi - rlo) (drop rlo (rows x))) = rhi - rlo"
    using le wf(1) by simp
  have 1: "length (rows (slice2 x a b c d)) = nrows (slice2 x a b c d)"
    by (simp only: f length_map len)
  have 2: "length (rows (slice2 x a b c d) ! r) = ncols (slice2 x a b c d)
           \<and> (\<forall>k < ncols (slice2 x a b c d).
                 rows (slice2 x a b c d) ! r ! k = rows x ! (rlo + r) ! (clo + k))"
    if r: "r < nrows (slice2 x a b c d)" for r
  proof -
    have r': "r < rhi - rlo" using r by (simp only: f)
    then have in_range: "rlo + r < length (rows x)" using le wf(1) by linarith
    have row: "take (rhi - rlo) (drop rlo (rows x)) ! r = rows x ! (rlo + r)"
      using r' in_range by simp
    have rl: "length (rows x ! (rlo + r)) = ncols x"
      using wf(2) in_range by (simp add: list_all_length)
    have e: "rows (slice2 x a b c d) ! r = take (chi - clo) (drop clo (rows x ! (rlo + r)))"
      using r' len by (simp add: f(3) row)
    have l: "length (rows (slice2 x a b c d) ! r) = ncols (slice2 x a b c d)"
      using le rl by (simp add: e f(2))
    have v: "rows (slice2 x a b c d) ! r ! k = rows x ! (rlo + r) ! (clo + k)"
      if "k < ncols (slice2 x a b c d)" for k
    proof -
      from that have "k < chi - clo" by (simp only: f)
      then show ?thesis using le rl by (simp add: e)
    qed
    from l v show ?thesis by blast
  qed
  from 1 2 show ?thesis by blast
qed

text \<open>
  Claim C8 (as amended). When the list given to \<open>Patch\<close> holds an image smaller than the
  crop (its first axis shorter than \<open>pw\<close> or its second shorter than \<open>ph\<close>), the call fails with
  the \<^verbatim>\<open>ValueError\<close> of the random draw over an empty range. \<open>CenterCrop\<close> has no check of the
  crop size: for every crop size it returns one crop per image, the slice
  \<^verbatim>\<open>x[i:i+pw, j:j+pw]\<close> at the offsets \<open>i = round_half (w - pw)\<close> and \<open>j = round_half (h - ph)\<close>,
  clipped to the image as Python clips a slice. The bounds \<open>rlo, rhi\<close> and \<open>clo, chi\<close> of the two
  clipped slices lie within the image, the crop has \<open>rhi - rlo\<close> rows and \<open>chi - clo\<close> columns,
  and its entry \<open>(r, c)\<close> is the entry \<open>(rlo + r, clo + c)\<close> of the image.
\<close>

theorem oversize_crop:
  "((\<exists>x \<in> set X. int (nrows x) < pw \<or> int (ncols x) < ph) \<longrightarrow> Patch X pw ph g = Inl ValueError)
   \<and> length (CenterCrop X pw ph) = length X
   \<and> (\<forall>k < length X. \<exists>i j rlo rhi clo chi.
         i = round_half (int (nrows (X ! k)) - pw) \<and> j = round_half (int (ncols (X ! k)) - ph)
       \<and> slice_bounds (nrows (X ! k)) i (i + pw) = (rlo, rhi)
       \<and> slice_bounds (ncols (X ! k)) j (j + pw) = (clo, chi)
       \<and> rlo \<le> nrows (X ! k) \<and> rhi \<le> nrows (X ! k) \<and> clo \<le> ncols (X ! k) \<and> chi \<le> ncols (X ! k)
       \<and> nrows (CenterCrop X pw ph ! k) = rhi - rlo
       \<and> ncols (CenterCrop X pw ph ! k) = chi - clo
       \<and> rows (CenterCrop X pw ph ! k)
           = map (\<lambda>r. take (chi - clo) (drop clo r)) (take (rhi - rlo) (drop rlo (rows (X ! k))))
       \<and> (length (rows (X ! k)) = nrows (X ! k)
            \<and> list_all (\<lambda>r. length r = ncols (X ! k)) (rows (X ! k)) \<longrightarrow>
          length (rows (CenterCrop X pw ph ! k)) = nrows (CenterCrop X pw ph ! k)
          \<and> (\<forall>r < nrows (CenterCrop X pw ph ! k).
                length (rows (CenterCrop X pw ph ! k) ! r) = ncols (CenterCrop X pw ph ! k)
                \<and> (\<forall>c < ncols (CenterCrop X pw ph ! k).
                      rows (CenterCrop X pw ph ! k) ! r ! c = rows (X ! k) ! (rlo + r) ! (clo + c)))))"
proof (intro conjI impI allI)
  assume "\<exists>x \<in> set X. int (nrows x) < pw \<or> int (ncols x) < ph"
  then show "Patch X pw ph g = Inl ValueError"
    unfolding Patch_def by (rule Patch_loop_fail)
next
  show "length (CenterCrop X pw ph) = length X"
    by (simp only: CenterCrop_def length_map)
next
  fix k assume k: "k < length X"
  define x where "x = X ! k"
  define i where "i = round_half (int (nrows x) - pw)"
  define j where "j = round_half (int (ncols x) - ph)"
  obtain rlo rhi where rb: "slice_bounds (nrows x) i (i + pw) = (rlo, rhi)"
    by (cases "slice_bounds (nrows x) i (i + pw)")
  obtain clo chi where cb: "slice_bounds (ncols x) j (j + pw) = (clo, chi)"
    by (cases "slice_bounds (ncols x) j (j + pw)")
  have cc: "CenterCrop X pw ph ! k = slice2 x i (i + pw) j (j + pw)"
    using k by (simp add: CenterCrop_def center_crop_def Let_def x_def i_def j_def)
  have le: "rlo \<le> nrows x" "rhi \<le> nrows x" "clo \<le> ncols x" "chi \<le> ncols x"
    using slice_bounds_le[of "nrows x" i "i + pw"] slice_bounds_le[of "ncols x" j "j + pw"] rb cb
    by simp_all
  note f = slice2_fields[OF rb cb]
  have wf: "length (rows x) = nrows x \<and> list_all (\<lambda>r. length r = ncols x) (rows x) \<longrightarrow>
          length (rows (CenterCrop X pw ph ! k)) = nrows (CenterCrop X pw ph ! k)
          \<and> (\<forall>r < nrows (CenterCrop X pw ph ! k).
                length (rows (CenterCrop X pw ph ! k) ! r) = ncols (CenterCrop X pw ph ! k)
                \<and> (\<forall>c < ncols (CenterCrop X pw ph ! k).
                      rows (CenterCrop X pw ph ! k) ! r ! c = rows x ! (rlo + r) ! (clo + c)))"
    unfolding cc using slice2_entries[OF rb cb] by blast
  show "\<exists>i j rlo rhi clo chi.
         i = round_half (int (nrows (X ! k)) - pw) \<and> j = round_half (int (ncols (X ! k)) - ph)
       \<and> slice_bounds (nrows (X ! k)) i (i + pw) = (rlo, rhi)
       \<and> slice_bounds (ncols (X ! k)) j (j + pw) = (clo, chi)
       \<and> rlo \<le> nrows (X ! k) \<and> rhi \<le> nrows (X ! k) \<and> clo \<le> ncols (X ! k) \<and> chi \<le> ncols (X ! k)
       \<and> nrows (CenterCrop X pw ph ! k) = rhi - rlo
       \<and> ncols (CenterCrop X pw ph ! k) = chi - clo
       \<and> rows (CenterCrop X pw ph ! k)
           = map (\<lambda>r. take (chi - clo) (drop clo r)) (take (rhi - rlo) (drop rlo (rows (X ! k))))
       \<and> (length (rows (X ! k)) = nrows (X ! k)
            \<and> list_all (\<lambda>r. length r = ncols (X ! k)) (rows (X ! k)) \<longrightarrow>
          length (rows (CenterCrop X pw ph ! k)) = nrows (CenterCrop X pw ph ! k)
          \<and> (\<forall>r < nrows (CenterCrop X pw ph ! k).
                length (rows (CenterCrop X pw ph ! k) ! r) = ncols (CenterCrop X pw ph ! k)
                \<and> (\<forall>c < ncols (CenterCrop X pw ph ! k).
                      rows (CenterCrop X pw ph ! k) ! r ! c = rows (X ! k) ! (rlo + r) ! (clo + c))))"
    unfolding x_def[symmetric]
    apply (rule exI[of _ i], rule exI[of _ j], rule exI[of _ rlo], rule exI[of _ rhi],
           rule exI[of _ clo], rule exI[of _ chi])
    apply (intro conjI)
    apply (fact i_def j_def rb cb le f[folded cc] wf)+
    done
qed

theorem oversize_crop_witness:
  "(\<exists>x \<in> set [\<lparr>nrows = 2, ncols = 2, rows = [[1, 2], [3, 4 :: nat]]\<rparr>]. int (nrows x) < 4 \<or> int (ncols x) < 4)
   \<and> Patch [\<lparr>nrows = 2, ncols = 2, rows = [[1, 2], [3, 4 :: nat]]\<rparr>] 4 4 (\<lambda>k. k) = Inl ValueError
   \<and> length (CenterCrop [\<lparr>nrows = 2, ncols = 2, rows = [[1, 2], [3, 4 :: nat]]\<rparr>] 4 4) = 1
   \<and> nrows (CenterCrop [\<lparr>nrows = 2, ncols = 2, rows = [[1, 2], [3, 4 :: nat]]\<rparr>] 4 4 ! 0) = 1
   \<and> ncols (CenterCrop [\<lparr>nrows = 2, ncols = 2, rows = [[1, 2], [3, 4 :: nat]]\<rparr>] 4 4 ! 0) = 1
   \<and> rows (CenterCrop [\<lparr>nrows = 2, ncols = 2, rows = [[1, 2], [3, 4 :: nat]]\<rparr>] 4 4 ! 0) ! 0 ! 0 = 4"
proof -
  define x where "x = \<lparr>nrows = 2, ncols = 2, rows = [[1, 2], [3, 4 :: nat]]\<rparr>"
  have x: "nrows x = 2" "ncols x = 2" "rows x = [[1, 2], [3, 4]]" "[x] ! 0 = x"
    by (simp_all add: x_def)
  have h: "\<exists>x \<in> set [x]. int (nrows x) < 4 \<or> int (ncols x) < 4"
    by (simp add: x)
  note t = oversize_crop[of "[x]" 4 4 "\<lambda>k. k"]
  from t have "(\<exists>x \<in> set [x]. int (nrows x) < 4 \<or> int (ncols x) < 4)
      \<longrightarrow> Patch [x] 4 4 (\<lambda>k. k) = Inl ValueError"
    by (rule conjunct1)
  from this h have a: "Patch [x] 4 4 (\<lambda>k. k) = Inl ValueError" by (rule mp)
  from t have "length (CenterCrop [x] 4 4) = length [x]"
    by (elim conjE)
  then have b: "length (CenterCrop [x] 4 4) = 1" by simp
  have k: "(0::nat) < length [x]" by simp
  from t have "\<forall>k < length [x]. \<exists>i j rlo rhi clo chi.
         i = round_half (int (nrows ([x] ! k)) - 4) \<and> j = round_half (int (ncols ([x] ! k)) - 4)
       \<and> slice_bounds (nrows ([x] ! k)) i (i + 4) = (rlo, rhi)
       \<and> slice_bounds (ncols ([x] ! k)) j (j + 4) = (clo, chi)
       \<and> rlo \<le> nrows ([x] ! k) \<and> rhi \<le> nrows ([x] ! k) \<and> clo \<le> ncols ([x] ! k) \<and> chi \<le> ncols ([x] ! k)
       \<and> nrows (CenterCrop [x] 4 4 ! k) = rhi - rlo
       \<and> ncols (CenterCrop [x] 4 4 ! k) = chi - clo
       \<and> rows (CenterCrop [x] 4 4 ! k)
           = map (\<lambda>r. take (chi - clo) (drop clo r)) (take (rhi - rlo) (drop rlo (rows ([x] ! k))))
       \<and> (length (rows ([x] ! k)) = nrows ([x] ! k)
            \<and> list_all (\<lambda>r. length r = ncols ([x] ! k)) (rows ([x] ! k)) \<longrightarrow>
          length (rows (CenterCrop [x] 4 4 ! k)) = nrows (CenterCrop [x] 4 4 ! k)
          \<and> (\<forall>r < nrows (CenterCrop [x] 4 4 ! k).
                length (rows (CenterCrop [x] 4 4 ! k) ! r) = ncols (CenterCrop [x] 4 4 ! k)
                \<and> (\<forall>c < ncols (CenterCrop [x] 4 4 ! k).
                      rows (CenterCrop [x] 4 4 ! k) ! r ! c = rows ([x] ! k) ! (rlo + r) ! (clo + c))))"
    by (elim conjE)
  from this[rule_format, OF k] obtain i j rlo rhi clo chi where
    i: "i = round_half (int (nrows ([x] ! 0)) - 4)" and j: "j = round_half (int (ncols ([x] ! 0)) - 4)"
    and rb: "slice_bounds (nrows ([x] ! 0)) i (i + 4) = (rlo, rhi)"
    and cb: "slice_bounds (ncols ([x] ! 0)) j (j + 4) = (clo, chi)"
    and nr: "nrows (CenterCrop [x] 4 4 ! 0) = rhi - rlo"
    and nc: "ncols (CenterCrop [x] 4 4 ! 0) = chi - clo"
    and en: "length (rows ([x] ! 0)) = nrows ([x] ! 0)
            \<and> list_all (\<lambda>r. length r = ncols ([x] ! 0)) (rows ([x] ! 0)) \<longrightarrow>
          length (rows (CenterCrop [x] 4 4 ! 0)) = nrows (CenterCrop [x] 4 4 ! 0)
          \<and> (\<forall>r < nrows (CenterCrop [x] 4 4 ! 0).
                length (rows (CenterCrop [x] 4 4 ! 0) ! r) = ncols (CenterCrop [x] 4 4 ! 0)
                \<and> (\<forall>c < ncols (CenterCrop [x] 4 4 ! 0).
                      rows (CenterCrop [x] 4 4 ! 0) ! r ! c = rows ([x] ! 0) ! (rlo + r) ! (clo + c)))"
    by (elim exE conjE)
  have iv: "i = - 1" "j = - 1" by (simp_all add: i j x round_half_def)
  have sb: "slice_bounds 2 (- 1) (- 1 + 4) = (1, 2)" by (simp add: slice_bounds_def)
  have lo: "rlo = 1" "rhi = 2" "clo = 1" "chi = 2"
    using rb cb sb by (simp_all add: iv x)
  have c1: "nrows (CenterCrop [x] 4 4 ! 0) = 1" using nr by (simp add: lo)
  have c2: "ncols (CenterCrop [x] 4 4 ! 0) = 1" using nc by (simp add: lo)
  have wf: "length (rows ([x] ! 0)) = nrows ([x] ! 0)
            \<and> list_all (\<lambda>r. length r = ncols ([x] ! 0)) (rows ([x] ! 0))"
    by (simp add: x)
  from en wf have "\<forall>r < nrows (CenterCrop [x] 4 4 ! 0).
                length (rows (CenterCrop [x] 4 4 ! 0) ! r) = ncols (CenterCrop [x] 4 4 ! 0)
                \<and> (\<forall>c < ncols (CenterCrop [x] 4 4 ! 0).
                      rows (CenterCrop [x] 4 4 ! 0) ! r ! c = rows ([x] ! 0) ! (rlo + r) ! (clo + c))"
    by blast
  then have "rows (CenterCrop [x] 4 4 ! 0) ! 0 ! 0 = rows ([x] ! 0) ! (rlo + 0) ! (clo + 0)"
    using c1 c2 by simp
  then have c3: "rows (CenterCrop [x] 4 4 ! 0) ! 0 ! 0 = 4"
    by (simp add: lo x)
  show ?thesis unfolding x_def[symmetric] by (intro conjI) (fact h a b c1 c2 c3)+
qed

text \<open>
  As the claim C8 is stated, \<open>CenterCrop\<close> fails for a crop larger than the image. It does
  not: for a \<open>2 \<times> 2\<close> image and a \<open>4 \<times> 4\<close> crop the offsets are \<open>-1\<close>, and the slice
  \<^verbatim>\<open>x[-1:3, -1:3]\<close> is the last entry of the image.
\<close>

theorem CenterCrop_oversize_counterexample:
  "CenterCrop [\<lparr>nrows = 2, ncols = 2, rows = [[1, 2], [3, 4 :: nat]]\<rparr>] 4 4
     = [\<lparr>nrows = 1, ncols = 1, rows = [[4]]\<rparr>]"
  by code_simp


section \<open>StringToCharacterCNNRNNRep raises\<close>

text \<open>
  With the bindings of the module, every call raises: \<^verbatim>\<open>ValueError\<close> from \<^verbatim>\<open>max\<close> for the
  empty list of strings, and \<^verbatim>\<open>NameError\<close> at the first string otherwise.
\<close>

lemma transforms_env_one_hot: "transforms_env ''one_hot'' = None"
  by (simp add: transforms_env_def)

lemma rnn_rep_loop_unbound:
  "env ''one_hot'' = None \<Longrightarrow> X \<noteq> [] \<Longrightarrow>
   rnn_rep_loop env encoder nc max_len X Xt = Inl NameError"
  by (cases X) (simp_all add: Let_def)

lemma StringToCharacterCNNRNNRep_raises:
  "StringToCharacterCNNRNNRep X encoder = (if X = [] then Inl ValueError else Inl NameError)"
proof (cases X)
  case Nil
  then show ?thesis
    by (simp add: StringToCharacterCNNRNNRep_def StringToCharacterCNNRNNRep_env_def py_max_def)
next
  case (Cons x xs)
  then have ne: "X \<noteq> []" by simp
  then have "map length X \<noteq> []" by simp
  then obtain m where m: "py_max (map length X) = Inr m"
    by (cases "map length X") (simp_all add: py_max_def)
  have "rnn_rep_loop transforms_env encoder (encoder_len encoder + 1) m X [] = Inl NameError"
    using transforms_env_one_hot ne by (rule rnn_rep_loop_unbound[of transforms_env])
  with ne m show ?thesis
    by (simp add: StringToCharacterCNNRNNRep_def StringToCharacterCNNRNNRep_env_def Let_def)
qed

text \<open>
  Had the name \<^verbatim>\<open>one_hot\<close> been bound to the one-hot encoder of the module, the function
  would pad at the front as the interface describes: the string \<^verbatim>\<open>'a'\<close> next to \<^verbatim>\<open>'ab'\<close> gets
  one row of zeros before its one-hot row.
\<close>

lemma StringToCharacterCNNRNNRep_intended:
  "StringToCharacterCNNRNNRep_env (map_of [(''one_hot'', \<lambda>x n. OneHot x (Some n) 0)])
     [''ab'', ''a''] [(CHR ''a'', 1), (CHR ''b'', 2)]
   = Inr \<lparr>shape4 = (2, 1, 2, 3),
          data4 = [[[[0, 1, 0], [0, 0, 1]]], [[[0, 0, 0], [0, 1, 0]]]]\<rparr>"
  by code_simp


text \<open>
  Claim C9 says that \<open>StringToCharacterCNNRNNRep\<close> returns a four-dimensional one-hot array,
  padded with rows of zeros at the front. The function calls \<^verbatim>\<open>one_hot\<close>, a name the module
  does not bind (its encoder is named \<^verbatim>\<open>OneHot\<close>), so the call on two strings and a
  two-character encoder raises \<^verbatim>\<open>NameError\<close> and returns no array.
\<close>

theorem StringToCharacterCNNRNNRep_name_error:
  "StringToCharacterCNNRNNRep [''ab'', ''a''] [(CHR ''a'', 1), (CHR ''b'', 2)] = Inl NameError"
  by code_simp


end
